theory Spec2Isabelle
  imports Main "HOL-Library.Word"
begin

unbundle bit_operations_syntax

section \<open>Types and constants of the builder\<close>

text \<open>
  The builder of \<^verbatim>\<open>fst_builder.hpp\<close> works on byte strings and on bit vectors stored
  as vectors of 64-bit words.  Its scalar types and constants are declared in
  \<^verbatim>\<open>config.hpp\<close>.  A word (\<^verbatim>\<open>word_t\<close>) is a 64-bit machine word and is modelled as
  \<^typ>\<open>64 word\<close>; a label (\<^verbatim>\<open>label_t\<close>, one byte) is modelled as \<^typ>\<open>char\<close>; positions,
  levels and counts (\<^verbatim>\<open>position_t\<close>, \<^verbatim>\<open>level_t\<close>) index vectors held in memory and are
  modelled as \<^typ>\<open>nat\<close>; where the builder computes with them beyond indexing, in the
  sizes of the cut-off policy, the operations are those of a 32-bit unsigned integer.  The reserved terminator byte \<^verbatim>\<open>kTerminator\<close> is a parameter
  \<open>kT\<close> of the functions that read it.
\<close>

type_synonym word_t = "64 word"
type_synonym label_t = char
type_synonym position_t = nat
type_synonym level_t = nat

text \<open>
  The arithmetic of the cut-off sizes is done on values of type \<^verbatim>\<open>position_t\<close> before they
  are added to a \<^verbatim>\<open>uint64_t\<close>, so the width of \<^verbatim>\<open>position_t\<close> matters there.
  \<^verbatim>\<open>select.hpp\<close> sizes a slot of its \<^verbatim>\<open>position_t\<close> table as \<^verbatim>\<open>sizeof(uint32_t)\<close>: a
  \<^verbatim>\<open>position_t\<close> is an unsigned integer of 32 bits.  \<open>to_position_t n\<close> is the value a
  \<^verbatim>\<open>position_t\<close> holds for the number \<open>n\<close>, and the result of an arithmetic operation on
  \<^verbatim>\<open>position_t\<close> operands whose exact result is \<open>n\<close>.
\<close>

definition to_position_t :: "nat \<Rightarrow> position_t" where
  "to_position_t n = unat (word_of_nat n :: 32 word)"

lemma to_position_t_mod: "to_position_t n = n mod 2 ^ 32"
  by (simp add: to_position_t_def unat_of_nat)

text \<open>Modelled from the spec: the word size W of section 4.1 (64).\<close>

definition kWordSize :: nat where
  "kWordSize = 64"

text \<open>Modelled from the spec: the mask \<^verbatim>\<open>1 << (W-1)\<close> of section 4.1.\<close>

definition kMsbMask :: word_t where
  "kMsbMask = push_bit 63 1"

text \<open>Modelled from the spec: the fan-out 256 of a dense node (section 4.7).\<close>

definition kFanout :: nat where
  "kFanout = 256"

section \<open>Errors\<close>

text \<open>
  Every assertion of the source is a branch of the model.  An access to a vector beyond
  its size, undefined in C++, is an error value as well.
\<close>

datatype error =
    EmptyKeyList          \<comment> \<open>\<^verbatim>\<open>assert(keys.size() > 0)\<close> in \<^verbatim>\<open>build\<close>\<close>
  | BitOutOfRange         \<comment> \<open>\<^verbatim>\<open>assert(pos < bits.size() * kWordSize)\<close> in \<^verbatim>\<open>readBit\<close>, \<^verbatim>\<open>setBit\<close>\<close>
  | StartLevelPastKey     \<comment> \<open>\<^verbatim>\<open>assert(start_level < key.length())\<close>\<close>
  | LevelOutOfRange       \<comment> \<open>\<^verbatim>\<open>assert(level < getTreeHeight())\<close>\<close>
  | DenseLevelOutOfRange  \<comment> \<open>\<^verbatim>\<open>assert(downto_level <= getTreeHeight())\<close>\<close>
  | IndexOutOfRange       \<comment> \<open>a vector indexed beyond its size, or \<^verbatim>\<open>back()\<close> of an empty one\<close>
  | RankOutOfRange        \<comment> \<open>\<^verbatim>\<open>assert(rank > 0)\<close>, \<^verbatim>\<open>assert(rank <= num_ones_)\<close> in \<^verbatim>\<open>select\<close>\<close>
  | DivisionByZero        \<comment> \<open>a division by \<^verbatim>\<open>sample_interval_\<close> when it is 0\<close>
  | SelectInWordUndefined \<comment> \<open>\<^verbatim>\<open>select64_popcount_search(w, k)\<close> outside \<open>1 \<le> k \<le> popcount w\<close>\<close>

definition bindE :: "error + 'a \<Rightarrow> ('a \<Rightarrow> error + 'b) \<Rightarrow> error + 'b" where
  "bindE m f = (case m of Inl e \<Rightarrow> Inl e | Inr x \<Rightarrow> f x)"

definition nthE :: "'a list \<Rightarrow> nat \<Rightarrow> error + 'a" where
  "nthE xs i = (if i < length xs then Inr (xs ! i) else Inl IndexOutOfRange)"

definition modifyE :: "'a list \<Rightarrow> nat \<Rightarrow> ('a \<Rightarrow> error + 'a) \<Rightarrow> error + 'a list" where
  "modifyE xs i f =
     (if i < length xs then bindE (f (xs ! i)) (\<lambda>y. Inr (xs[i := y]))
      else Inl IndexOutOfRange)"

lemma bindE_Inl [simp]: "bindE (Inl e) f = Inl e"
  by (simp add: bindE_def)

lemma bindE_Inr [simp]: "bindE (Inr x) f = f x"
  by (simp add: bindE_def)

lemma bindE_cong [fundef_cong]:
  "m = m' \<Longrightarrow> (\<And>x. m' = Inr x \<Longrightarrow> f x = f' x) \<Longrightarrow> bindE m f = bindE m' f'"
  by (cases m') (simp_all add: bindE_def)

lemma bindE_eq_Inr:
  "bindE m f = Inr y \<longleftrightarrow> (\<exists>x. m = Inr x \<and> f x = Inr y)"
  by (cases m) simp_all

lemma bindE_eq_Inl:
  "bindE m f = Inl e \<longleftrightarrow> m = Inl e \<or> (\<exists>x. m = Inr x \<and> f x = Inl e)"
  by (cases m) simp_all

section \<open>Bit operations\<close>

text \<open>\<^verbatim>\<open>FSTBuilder::readBit\<close> and \<^verbatim>\<open>FSTBuilder::setBit\<close>: bit 0 of a word is its most
  significant bit.\<close>

definition readBit :: "word_t list \<Rightarrow> position_t \<Rightarrow> error + bool" where
  "readBit bits pos =
     (if pos < length bits * kWordSize then
        (let word_id = pos div kWordSize; offset = pos mod kWordSize
         in Inr ((bits ! word_id) AND (drop_bit offset kMsbMask) \<noteq> 0))
      else Inl BitOutOfRange)"

definition setBit :: "word_t list \<Rightarrow> position_t \<Rightarrow> error + word_t list" where
  "setBit bits pos =
     (if pos < length bits * kWordSize then
        (let word_id = pos div kWordSize; offset = pos mod kWordSize
         in Inr (bits[word_id := (bits ! word_id) OR (drop_bit offset kMsbMask)]))
      else Inl BitOutOfRange)"

text \<open>
  The builder addresses the last slot of a level as \<^verbatim>\<open>getNumItems(level) - 1\<close>.  On an
  empty level the unsigned subtraction wraps to the largest position, which no vector
  holds, so the assertion of \<^verbatim>\<open>setBit\<close> fires.
\<close>

definition setBitLast :: "word_t list \<Rightarrow> position_t \<Rightarrow> error + word_t list" where
  "setBitLast bits num_items =
     (if num_items = 0 then Inl BitOutOfRange else setBit bits (num_items - 1))"

section \<open>The builder state\<close>

record builder =
  include_dense :: bool
  sparse_dense_ratio :: "32 word"
  sparse_start_level :: level_t
  positions :: "nat list list"
  labels :: "label_t list list"
  child_indicator_bits :: "word_t list list"
  louds_bits :: "word_t list list"
  positions_sparse :: "nat list"
  bitmap_labels :: "word_t list list"
  bitmap_child_indicator_bits :: "word_t list list"
  prefixkey_indicator_bits :: "word_t list list"
  positions_dense :: "nat list"
  node_counts :: "position_t list"
  is_last_item_terminator :: "bool list"

text \<open>The constructor \<^verbatim>\<open>FSTBuilder(include_dense, sparse_dense_ratio)\<close>: every vector is
  empty.\<close>

definition FSTBuilder :: "bool \<Rightarrow> 32 word \<Rightarrow> builder" where
  "FSTBuilder incl ratio =
     \<lparr> include_dense = incl, sparse_dense_ratio = ratio, sparse_start_level = 0,
       positions = [], labels = [], child_indicator_bits = [], louds_bits = [],
       positions_sparse = [], bitmap_labels = [], bitmap_child_indicator_bits = [],
       prefixkey_indicator_bits = [], positions_dense = [], node_counts = [],
       is_last_item_terminator = [] \<rparr>"

definition getTreeHeight :: "builder \<Rightarrow> level_t" where
  "getTreeHeight s = length (labels s)"

definition getNumItems :: "builder \<Rightarrow> level_t \<Rightarrow> error + position_t" where
  "getNumItems s level = bindE (nthE (labels s) level) (\<lambda>ls. Inr (length ls))"

definition isSameKey :: "string \<Rightarrow> string \<Rightarrow> bool" where
  "isSameKey a b = (a = b)"

section \<open>The sparse pass\<close>

definition addLevel :: "builder \<Rightarrow> error + builder" where
  "addLevel s =
     (let s1 = s\<lparr> labels := labels s @ [[]],
                  positions := positions s @ [[]],
                  child_indicator_bits := child_indicator_bits s @ [[]],
                  louds_bits := louds_bits s @ [[]],
                  node_counts := node_counts s @ [0],
                  is_last_item_terminator := is_last_item_terminator s @ [False] \<rparr>
      in bindE (modifyE (child_indicator_bits s1) (getTreeHeight s1 - 1) (\<lambda>b. Inr (b @ [0])))
           (\<lambda>cb. bindE (modifyE (louds_bits s1) (getTreeHeight s1 - 1) (\<lambda>b. Inr (b @ [0])))
           (\<lambda>lb. Inr (s1\<lparr> child_indicator_bits := cb, louds_bits := lb \<rparr>))))"

definition isCharCommonPrefix :: "label_t \<Rightarrow> level_t \<Rightarrow> builder \<Rightarrow> error + bool" where
  "isCharCommonPrefix c level s =
     (if level < getTreeHeight s then
        bindE (nthE (is_last_item_terminator s) level) (\<lambda>t.
          if t then Inr False
          else if labels s ! level = [] then Inl IndexOutOfRange
          else Inr (c = last (labels s ! level)))
      else Inr False)"

definition isLevelEmpty :: "level_t \<Rightarrow> builder \<Rightarrow> bool" where
  "isLevelEmpty level s = (level \<ge> getTreeHeight s \<or> labels s ! level = [])"

definition moveToNextItemSlot :: "level_t \<Rightarrow> builder \<Rightarrow> error + builder" where
  "moveToNextItemSlot level s =
     (if \<not> level < getTreeHeight s then Inl LevelOutOfRange
      else bindE (getNumItems s level) (\<lambda>num_items.
        if num_items mod kWordSize = 0 then
          bindE (modifyE (child_indicator_bits s) level (\<lambda>b. Inr (b @ [0]))) (\<lambda>cb.
          bindE (modifyE (louds_bits s) level (\<lambda>b. Inr (b @ [0]))) (\<lambda>lb.
          Inr (s\<lparr> child_indicator_bits := cb, louds_bits := lb \<rparr>)))
        else Inr s))"

text \<open>\<^verbatim>\<open>setBit(child_indicator_bits_[level], getNumItems(level) - 1)\<close>, the statement that
  \<^verbatim>\<open>skipCommonPrefix\<close> and \<^verbatim>\<open>insertKeyByte\<close> share.\<close>

definition setChildIndicatorOfLastItem :: "level_t \<Rightarrow> builder \<Rightarrow> error + builder" where
  "setChildIndicatorOfLastItem level s =
     bindE (getNumItems s level) (\<lambda>num_items.
     bindE (modifyE (child_indicator_bits s) level (\<lambda>b. setBitLast b num_items)) (\<lambda>cb.
     Inr (s\<lparr> child_indicator_bits := cb \<rparr>)))"

definition insertKeyByte :: "char \<Rightarrow> level_t \<Rightarrow> bool \<Rightarrow> bool \<Rightarrow> builder \<Rightarrow> error + builder" where
  "insertKeyByte c level is_start_of_node is_term s =
     bindE (if level \<ge> getTreeHeight s then addLevel s else Inr s) (\<lambda>s1.
     if \<not> level < getTreeHeight s1 then Inl LevelOutOfRange
     else
     bindE (if level > 0 then setChildIndicatorOfLastItem (level - 1) s1 else Inr s1) (\<lambda>s2.
     bindE (modifyE (labels s2) level (\<lambda>ls. Inr (ls @ [c]))) (\<lambda>lab.
     let s3 = s2\<lparr> labels := lab \<rparr> in
     bindE (if is_start_of_node then
              bindE (getNumItems s3 level) (\<lambda>num_items.
              bindE (modifyE (louds_bits s3) level (\<lambda>b. setBitLast b num_items)) (\<lambda>lb.
              bindE (modifyE (node_counts s3) level (\<lambda>n. Inr (n + 1))) (\<lambda>nc.
              Inr (s3\<lparr> louds_bits := lb, node_counts := nc \<rparr>))))
            else Inr s3) (\<lambda>s4.
     bindE (modifyE (is_last_item_terminator s4) level (\<lambda>_. Inr is_term)) (\<lambda>lt.
     moveToNextItemSlot level (s4\<lparr> is_last_item_terminator := lt \<rparr>))))))"

function skipCommonPrefix_loop :: "string \<Rightarrow> level_t \<Rightarrow> builder \<Rightarrow> error + (level_t \<times> builder)" where
  "skipCommonPrefix_loop key level s =
     (if level < length key then
        bindE (isCharCommonPrefix (key ! level) level s) (\<lambda>common.
          if common then
            bindE (setChildIndicatorOfLastItem level s) (\<lambda>s'.
              skipCommonPrefix_loop key (level + 1) s')
          else Inr (level, s))
      else Inr (level, s))"
  by pat_completeness auto
termination
  by (relation "measure (\<lambda>(key, level, s). length key - level)") auto

declare skipCommonPrefix_loop.simps [simp del]

definition skipCommonPrefix :: "string \<Rightarrow> builder \<Rightarrow> error + (level_t \<times> builder)" where
  "skipCommonPrefix key s = skipCommonPrefix_loop key 0 s"

text \<open>The \<^verbatim>\<open>while\<close> loop of \<^verbatim>\<open>insertKeyBytesToTrieUntilUnique\<close>; it is entered with
  \<open>level \<ge> 1\<close>.\<close>

function insertKeyBytes_loop :: "string \<Rightarrow> string \<Rightarrow> level_t \<Rightarrow> builder \<Rightarrow> error + (level_t \<times> builder)" where
  "insertKeyBytes_loop key next_key level s =
     (if level < length key \<and> level < length next_key
         \<and> key ! (level - 1) = next_key ! (level - 1) then
        bindE (insertKeyByte (key ! level) level True False s) (\<lambda>s'.
          insertKeyBytes_loop key next_key (level + 1) s')
      else Inr (level, s))"
  by pat_completeness auto
termination
  by (relation "measure (\<lambda>(key, next_key, level, s). length key - level)") auto

declare insertKeyBytes_loop.simps [simp del]

text \<open>\<^verbatim>\<open>positions_[level].emplace_back(position)\<close>.\<close>

definition emplacePosition :: "level_t \<Rightarrow> nat \<Rightarrow> builder \<Rightarrow> error + builder" where
  "emplacePosition level position s =
     bindE (modifyE (positions s) level (\<lambda>ps. Inr (ps @ [position]))) (\<lambda>ps.
     Inr (s\<lparr> positions := ps \<rparr>))"

definition insertKeyBytesToTrieUntilUnique ::
  "string \<Rightarrow> nat \<Rightarrow> string \<Rightarrow> level_t \<Rightarrow> builder \<Rightarrow> error + (level_t \<times> builder)" where
  "insertKeyBytesToTrieUntilUnique key position next_key start_level s =
     (if \<not> start_level < length key then Inl StartLevelPastKey
      else
        let level = start_level;
            is_start_of_node = isLevelEmpty level s;
            is_term = False
        in
        bindE (insertKeyByte (key ! level) level is_start_of_node is_term s) (\<lambda>s1.
        let level = level + 1 in
        if level > length next_key
           \<or> \<not> isSameKey (take level key) (take level next_key) then
          bindE (emplacePosition (level - 1) position s1) (\<lambda>s2. Inr (level, s2))
        else
          bindE (insertKeyBytes_loop key next_key level s1) (\<lambda>(level, s2).
          bindE (emplacePosition (level - 1) position s2) (\<lambda>s3. Inr (level, s3)))))"

text \<open>The inner \<^verbatim>\<open>while\<close> of \<^verbatim>\<open>buildSparse\<close>, which steps over the keys equal to
  \<^verbatim>\<open>keys[curpos]\<close>.\<close>

function skipSameKeys :: "string list \<Rightarrow> nat \<Rightarrow> nat \<Rightarrow> nat" where
  "skipSameKeys keys curpos i =
     (if i + 1 < length keys \<and> isSameKey (keys ! curpos) (keys ! (i + 1))
      then skipSameKeys keys curpos (i + 1) else i)"
  by pat_completeness auto
termination
  by (relation "measure (\<lambda>(keys, curpos, i). length keys - i)") auto

declare skipSameKeys.simps [simp del]

lemma skipSameKeys_ge: "i \<le> skipSameKeys keys curpos i"
proof (induction keys curpos i rule: skipSameKeys.induct)
  case (1 keys curpos i)
  show ?case
  proof (cases "i + 1 < length keys \<and> isSameKey (keys ! curpos) (keys ! (i + 1))")
    case True
    with 1 have "i + 1 \<le> skipSameKeys keys curpos (i + 1)" by simp
    moreover from True have "skipSameKeys keys curpos i = skipSameKeys keys curpos (i + 1)"
      by (subst skipSameKeys.simps) (simp only: simp_thms if_True)
    ultimately show ?thesis by simp
  next
    case False
    then have "skipSameKeys keys curpos i = i"
      by (subst skipSameKeys.simps) (simp only: simp_thms if_False)
    then show ?thesis by simp
  qed
qed

function buildSparse_loop :: "string list \<Rightarrow> nat \<Rightarrow> builder \<Rightarrow> error + builder" where
  "buildSparse_loop keys i s =
     (if i < length keys then
        bindE (skipCommonPrefix (keys ! i) s) (\<lambda>(level, s1).
          let curpos = i;
              j = skipSameKeys keys curpos i
          in
          bindE (if j < length keys - 1 then
                   insertKeyBytesToTrieUntilUnique (keys ! curpos) curpos (keys ! (j + 1)) level s1
                 else
                   insertKeyBytesToTrieUntilUnique (keys ! curpos) curpos [] level s1)
            (\<lambda>(_, s2). buildSparse_loop keys (j + 1) s2))
      else Inr s)"
  by pat_completeness auto
termination
proof (relation "measure (\<lambda>(keys, i, s). length keys - i)")
  show "wf (measure (\<lambda>(keys, i, s). length keys - i))" by simp
next
  fix keys :: "string list" and i :: nat and s :: builder
    and x :: "level_t \<times> builder" and x1 x2 xa xb
    and xc :: "level_t \<times> builder" and x1a x2a
  assume "i < length keys" and "xb = skipSameKeys keys xa i" and "xa = i"
  moreover have "i \<le> skipSameKeys keys i i" by (rule skipSameKeys_ge)
  ultimately show "((keys, xb + 1, x2a), keys, i, s) \<in> measure (\<lambda>(keys, i, s). length keys - i)"
    by simp
qed

declare buildSparse_loop.simps [simp del]

definition buildSparse :: "string list \<Rightarrow> builder \<Rightarrow> error + builder" where
  "buildSparse keys s = buildSparse_loop keys 0 s"

section \<open>The cut-off level\<close>

text \<open>
  \<^verbatim>\<open>computeDenseMem\<close> and \<^verbatim>\<open>computeSparseMem\<close> accumulate in a \<^verbatim>\<open>uint64_t\<close>.  The terms
  they add, \<^verbatim>\<open>2 * kFanout * node_counts_[level]\<close>, \<^verbatim>\<open>node_counts_[level - 1] / 8 + 1\<close> and
  \<^verbatim>\<open>num_items + 2 * num_items / 8 + 1\<close>, have operands of type \<^verbatim>\<open>int\<close> and \<^verbatim>\<open>position_t\<close> and
  are evaluated in \<^verbatim>\<open>position_t\<close>, every operation modulo \<open>2 ^ 32\<close>, before they are widened;
  \<^verbatim>\<open>num_items\<close> is the size of the level converted to \<^verbatim>\<open>position_t\<close>.
\<close>

definition computeDenseMem :: "level_t \<Rightarrow> builder \<Rightarrow> error + 64 word" where
  "computeDenseMem downto_level s =
     (if \<not> downto_level \<le> getTreeHeight s then Inl DenseLevelOutOfRange
      else if \<not> downto_level \<le> length (node_counts s) then Inl IndexOutOfRange
      else Inr (fold (\<lambda>level mem.
                  let mem = mem + of_nat (to_position_t
                              (2 * kFanout * to_position_t (node_counts s ! level)))
                  in if level > 0 then
                       mem + of_nat (to_position_t
                               (to_position_t (node_counts s ! (level - 1)) div 8 + 1))
                     else mem)
                [0..<downto_level] 0))"

definition computeSparseMem :: "level_t \<Rightarrow> builder \<Rightarrow> 64 word" where
  "computeSparseMem start_level s =
     fold (\<lambda>level mem.
            let num_items = to_position_t (length (labels s ! level))
            in mem + of_nat (to_position_t
                       (num_items + to_position_t (2 * num_items) div 8 + 1)))
       [start_level..<getTreeHeight s] 0"

text \<open>The \<^verbatim>\<open>while\<close> loop of \<^verbatim>\<open>determineCutoffLevel\<close>; the two sizes are recomputed for every
  candidate level.\<close>

function cutoff_loop :: "level_t \<Rightarrow> builder \<Rightarrow> error + level_t" where
  "cutoff_loop cutoff_level s =
     bindE (computeDenseMem cutoff_level s) (\<lambda>dense_mem.
       let sparse_mem = computeSparseMem cutoff_level s in
       if cutoff_level < getTreeHeight s
          \<and> dense_mem * ucast (sparse_dense_ratio s) < sparse_mem
       then cutoff_loop (cutoff_level + 1) s
       else Inr cutoff_level)"
  by pat_completeness auto
termination
  by (relation "measure (\<lambda>(cutoff_level, s). getTreeHeight s - cutoff_level)") auto

declare cutoff_loop.simps [simp del]

definition determineCutoffLevel :: "builder \<Rightarrow> error + builder" where
  "determineCutoffLevel s =
     bindE (cutoff_loop 0 s) (\<lambda>cutoff_level.
       let s1 = s\<lparr> sparse_start_level := cutoff_level \<rparr> in
       if \<not> sparse_start_level s1 \<le> length (positions s1) then Inl IndexOutOfRange
       else
         Inr (s1\<lparr> positions_dense :=
                     positions_dense s1 @ concat (take (sparse_start_level s1) (positions s1)),
                   positions_sparse :=
                     positions_sparse s1 @ concat (drop (sparse_start_level s1) (positions s1)),
                   positions := [] \<rparr>))"

section \<open>The dense pass\<close>

definition isStartOfNode :: "level_t \<Rightarrow> position_t \<Rightarrow> builder \<Rightarrow> error + bool" where
  "isStartOfNode level pos s =
     bindE (nthE (louds_bits s) level) (\<lambda>b. readBit b pos)"

definition isTerminator :: "label_t \<Rightarrow> level_t \<Rightarrow> position_t \<Rightarrow> builder \<Rightarrow> error + bool" where
  "isTerminator kT level pos s =
     bindE (nthE (labels s) level) (\<lambda>ls.
     bindE (nthE ls pos) (\<lambda>label.
       if label = kT then
         bindE (nthE (child_indicator_bits s) level) (\<lambda>b.
         bindE (readBit b pos) (\<lambda>child. Inr (\<not> child)))
       else Inr False))"

text \<open>\<^verbatim>\<open>initDenseVectors\<close>.  The body of its loop over the nodes of the level appends
  \<^verbatim>\<open>kFanout / kWordSize\<close> zero words to each bitmap and, for every \<^verbatim>\<open>kWordSize\<close>-th node, one
  zero word of prefix-key bits.\<close>

definition initDenseVectors_node :: "level_t \<Rightarrow> position_t \<Rightarrow> builder \<Rightarrow> error + builder" where
  "initDenseVectors_node level nc s =
     bindE (modifyE (bitmap_labels s) level
              (\<lambda>b. Inr (b @ replicate (kFanout div kWordSize) 0))) (\<lambda>bl.
     bindE (modifyE (bitmap_child_indicator_bits s) level
              (\<lambda>b. Inr (b @ replicate (kFanout div kWordSize) 0))) (\<lambda>bc.
     bindE (if nc mod kWordSize = 0
            then modifyE (prefixkey_indicator_bits s) level (\<lambda>b. Inr (b @ [0]))
            else Inr (prefixkey_indicator_bits s)) (\<lambda>pk.
     Inr (s\<lparr> bitmap_labels := bl, bitmap_child_indicator_bits := bc,
              prefixkey_indicator_bits := pk \<rparr>))))"

definition initDenseVectors :: "level_t \<Rightarrow> builder \<Rightarrow> error + builder" where
  "initDenseVectors level s =
     (let s1 = s\<lparr> bitmap_labels := bitmap_labels s @ [[]],
                  bitmap_child_indicator_bits := bitmap_child_indicator_bits s @ [[]],
                  prefixkey_indicator_bits := prefixkey_indicator_bits s @ [[]] \<rparr>
      in bindE (nthE (node_counts s1) level) (\<lambda>n.
           fold (\<lambda>nc r. bindE r (initDenseVectors_node level nc)) [0..<n] (Inr s1)))"

definition setPrefixkeyIndicator :: "level_t \<Rightarrow> position_t \<Rightarrow> builder \<Rightarrow> error + builder" where
  "setPrefixkeyIndicator level node_num s =
     bindE (modifyE (prefixkey_indicator_bits s) level (\<lambda>b. setBit b node_num)) (\<lambda>pk.
     Inr (s\<lparr> prefixkey_indicator_bits := pk \<rparr>))"

definition setLabelAndChildIndicatorBitmap ::
  "level_t \<Rightarrow> position_t \<Rightarrow> position_t \<Rightarrow> builder \<Rightarrow> error + builder" where
  "setLabelAndChildIndicatorBitmap level node_num pos s =
     bindE (nthE (labels s) level) (\<lambda>ls.
     bindE (nthE ls pos) (\<lambda>label.
     bindE (modifyE (bitmap_labels s) level
              (\<lambda>b. setBit b (node_num * kFanout + of_char label))) (\<lambda>bl.
     let s1 = s\<lparr> bitmap_labels := bl \<rparr> in
     bindE (nthE (child_indicator_bits s1) level) (\<lambda>cb.
     bindE (readBit cb pos) (\<lambda>child.
       if child then
         bindE (modifyE (bitmap_child_indicator_bits s1) level
                  (\<lambda>b. setBit b (node_num * kFanout + of_char label))) (\<lambda>bc.
         Inr (s1\<lparr> bitmap_child_indicator_bits := bc \<rparr>))
       else Inr s1)))))"

lemma setPrefixkeyIndicator_labels:
  "setPrefixkeyIndicator level node_num s = Inr s' \<Longrightarrow> labels s' = labels s"
  by (auto simp: setPrefixkeyIndicator_def bindE_eq_Inr)

lemma setLabelAndChildIndicatorBitmap_labels:
  "setLabelAndChildIndicatorBitmap level node_num pos s = Inr s' \<Longrightarrow> labels s' = labels s"
  by (auto simp: setLabelAndChildIndicatorBitmap_def bindE_eq_Inr Let_def split: if_splits)

text \<open>The body of the \<^verbatim>\<open>for\<close> loop of \<^verbatim>\<open>buildDense\<close> over the slots \<open>pos \<ge> 1\<close> of one
  level; it returns the node number for the next slot.\<close>

definition buildDense_slot ::
  "label_t \<Rightarrow> level_t \<Rightarrow> position_t \<Rightarrow> position_t \<Rightarrow> builder
     \<Rightarrow> error + (position_t \<times> builder)" where
  "buildDense_slot kT level node_num pos s =
     bindE (isStartOfNode level pos s) (\<lambda>start.
       if start then
         let node_num = node_num + 1 in
         bindE (isTerminator kT level pos s) (\<lambda>is_t.
           if is_t then
             bindE (setPrefixkeyIndicator level node_num s) (\<lambda>s'. Inr (node_num, s'))
           else
             bindE (setLabelAndChildIndicatorBitmap level node_num pos s)
               (\<lambda>s'. Inr (node_num, s')))
       else
         bindE (setLabelAndChildIndicatorBitmap level node_num pos s)
           (\<lambda>s'. Inr (node_num, s')))"

lemma buildDense_slot_labels:
  "buildDense_slot kT level node_num pos s = Inr (node_num', s') \<Longrightarrow> labels s' = labels s"
  by (auto simp: buildDense_slot_def bindE_eq_Inr Let_def split: if_splits
      dest: setPrefixkeyIndicator_labels setLabelAndChildIndicatorBitmap_labels)

function buildDense_slots ::
  "label_t \<Rightarrow> level_t \<Rightarrow> position_t \<Rightarrow> position_t \<Rightarrow> builder \<Rightarrow> error + builder" where
  "buildDense_slots kT level node_num pos s =
     bindE (getNumItems s level) (\<lambda>num_items.
       if pos < num_items then
         bindE (buildDense_slot kT level node_num pos s) (\<lambda>(node_num, s').
           buildDense_slots kT level node_num (pos + 1) s')
       else Inr s)"
  by pat_completeness auto
termination
  by (relation "measure (\<lambda>(kT, level, node_num, pos, s). length (labels s ! level) - pos)")
     (auto simp: getNumItems_def nthE_def split: if_splits dest!: buildDense_slot_labels)

declare buildDense_slots.simps [simp del]

definition buildDense_level :: "label_t \<Rightarrow> level_t \<Rightarrow> builder \<Rightarrow> error + builder" where
  "buildDense_level kT level s =
     bindE (initDenseVectors level s) (\<lambda>s1.
     bindE (getNumItems s1 level) (\<lambda>num_items.
       if num_items = 0 then Inr s1
       else
         let node_num = 0 in
         bindE (isTerminator kT level 0 s1) (\<lambda>is_t.
         bindE (if is_t then setPrefixkeyIndicator level 0 s1
                else setLabelAndChildIndicatorBitmap level node_num 0 s1) (\<lambda>s2.
         buildDense_slots kT level node_num 1 s2))))"

text \<open>The outer loop of \<^verbatim>\<open>buildDense\<close>, over the levels below \<^verbatim>\<open>sparse_start_level_\<close>.\<close>

definition buildDense :: "label_t \<Rightarrow> builder \<Rightarrow> error + builder" where
  "buildDense kT s =
     fold (\<lambda>level r. bindE r (buildDense_level kT level)) [0..<sparse_start_level s] (Inr s)"

section \<open>build\<close>

definition build :: "label_t \<Rightarrow> string list \<Rightarrow> builder \<Rightarrow> error + builder" where
  "build kT keys s =
     (if \<not> length keys > 0 then Inl EmptyKeyList
      else
        bindE (buildSparse keys s) (\<lambda>s1.
          if include_dense s1 then bindE (determineCutoffLevel s1) (buildDense kT)
          else Inr s1))"

section \<open>Counting set bits\<close>

text \<open>Modelled from the spec: \<^verbatim>\<open>popcount(w)\<close> returns the number of set bits (section 4.2;
  \<^verbatim>\<open>popcount.h\<close> is not part of the sources).\<close>

definition popcount :: "word_t \<Rightarrow> nat" where
  "popcount w = length (filter (bit w) [0..<64])"

text \<open>The number of set bits of a vector of words, the measure the invariants of the trie
  are stated in.\<close>

definition popcountBits :: "word_t list \<Rightarrow> nat" where
  "popcountBits bits = sum_list (map popcount bits)"

section \<open>Bits of a word vector\<close>

text \<open>The bit at a position of a word vector, most significant bit first; false beyond
  the end of the vector.\<close>

definition testBit :: "word_t list \<Rightarrow> nat \<Rightarrow> bool" where
  "testBit bits pos = (pos < length bits * 64 \<and> bit (bits ! (pos div 64)) (63 - pos mod 64))"

lemma msb_mask_eq: "kMsbMask = 2 ^ 63"
  unfolding kMsbMask_def by (simp only: push_bit_of_1)

lemma msb_mask_shift:
  assumes "k < 64"
  shows "drop_bit k kMsbMask = (2 :: word_t) ^ (63 - k)"
proof (rule bit_eqI)
  fix n
  assume "possible_bit TYPE(word_t) n"
  then have n: "n < 64" by (simp add: possible_bit_word)
  show "bit (drop_bit k kMsbMask) n = bit (2 ^ (63 - k) :: word_t) n"
    unfolding msb_mask_eq bit_drop_bit_eq bit_exp_iff o_def
    using assms n by (auto simp: possible_bit_word)
qed

lemma readBit_conv:
  "readBit bits pos = (if pos < length bits * 64 then Inr (testBit bits pos) else Inl BitOutOfRange)"
  by (simp add: readBit_def testBit_def kWordSize_def Let_def msb_mask_shift and_exp_eq_0_iff_not_bit)

lemma setBit_conv:
  "setBit bits pos = (if pos < length bits * 64
      then Inr (bits[pos div 64 := (bits ! (pos div 64)) OR 2 ^ (63 - pos mod 64)])
      else Inl BitOutOfRange)"
  by (simp add: setBit_def kWordSize_def Let_def msb_mask_shift)

lemma testBit_update:
  assumes "pos < length bits * 64"
  shows "testBit (bits[pos div 64 := (bits ! (pos div 64)) OR 2 ^ (63 - pos mod 64)]) q
     \<longleftrightarrow> q = pos \<or> testBit bits q"
proof (cases "q < length bits * 64")
  case False
  with assms show ?thesis by (auto simp: testBit_def)
next
  case True
  show ?thesis
  proof (cases "q div 64 = pos div 64")
    case False
    with True assms show ?thesis by (auto simp: testBit_def)
  next
    case same: True
    have "63 - q mod 64 = 63 - pos mod 64 \<longleftrightarrow> q mod 64 = pos mod 64"
      by (metis mod_less_divisor diff_diff_cancel less_Suc_eq_le zero_less_numeral Suc_numeral semiring_norm(5) semiring_norm(2) semiring_norm(8))
    moreover have "q = pos \<longleftrightarrow> q mod 64 = pos mod 64"
      using same by (metis div_mult_mod_eq)
    ultimately show ?thesis
      using True assms same
      by (auto simp: testBit_def bit_or_iff bit_exp_iff)
  qed
qed

lemma testBit_snoc_zero: "testBit (bits @ [0]) q \<longleftrightarrow> testBit bits q"
  by (auto simp: testBit_def nth_append)

lemma popcount_zero: "popcount 0 = 0"
  by (simp add: popcount_def)

lemma popcount_card: "popcount w = card {i. bit w i}"
proof -
  have "{i. bit w i} = set (filter (bit w) [0..<64])"
    by (auto dest: bit_imp_le_length)
  moreover have "card (set (filter (bit w) [0..<64])) = length (filter (bit w) [0..<64])"
    by (rule distinct_card) simp
  ultimately show ?thesis
    by (simp add: popcount_def)
qed


lemma testBit_bound: "testBit bits p \<Longrightarrow> p < length bits * 64"
  by (simp add: testBit_def)

lemma finite_testBit: "finite {p. testBit bits p}"
proof (rule finite_subset)
  show "{p. testBit bits p} \<subseteq> {..<length bits * 64}"
    by (auto dest: testBit_bound)
qed simp

lemma testBit_snoc:
  "testBit (bits @ [w]) p \<longleftrightarrow>
     testBit bits p \<or> (\<exists>i. bit w i \<and> p = length bits * 64 + (63 - i))"
proof (cases "p < length bits * 64")
  case True
  then have "p div 64 < length bits" by simp
  with True show ?thesis
    by (auto simp: testBit_def nth_append)
next
  case False
  show ?thesis
  proof (cases "p < length bits * 64 + 64")
    case False
    with \<open>\<not> p < length bits * 64\<close> show ?thesis
      by (auto simp: testBit_def)
  next
    case True
    with \<open>\<not> p < length bits * 64\<close> obtain r where r: "p = length bits * 64 + r" "r < 64"
      by (metis add_diff_inverse_nat nat_add_left_cancel_less)
    then have d: "p div 64 = length bits" and m: "p mod 64 = r" by simp_all
    have "bit w (63 - r) \<longleftrightarrow> (\<exists>i. bit w i \<and> r = 63 - i)"
    proof
      assume "bit w (63 - r)"
      moreover from r have "r = 63 - (63 - r)" by simp
      ultimately show "\<exists>i. bit w i \<and> r = 63 - i" by blast
    next
      assume "\<exists>i. bit w i \<and> r = 63 - i"
      then obtain i where i: "bit w i" "r = 63 - i" by blast
      from i(1) have "i < 64" by (auto dest: bit_imp_le_length)
      with i show "bit w (63 - r)" by simp
    qed
    with r d m show ?thesis
      by (auto simp: testBit_def nth_append)
  qed
qed

lemma popcountBits_snoc: "popcountBits (bits @ [w]) = popcountBits bits + popcount w"
  by (simp add: popcountBits_def)

lemma popcountBits_card: "popcountBits bits = card {p. testBit bits p}"
proof (induction bits rule: rev_induct)
  case Nil
  show ?case by (simp add: popcountBits_def testBit_def)
next
  case (snoc w bits)
  let ?f = "\<lambda>i. length bits * 64 + (63 - i)"
  have split: "{p. testBit (bits @ [w]) p} = {p. testBit bits p} \<union> ?f ` {i. bit w i}"
    by (auto simp: testBit_snoc)
  have disj: "{p. testBit bits p} \<inter> ?f ` {i. bit w i} = {}"
    by (auto dest: testBit_bound)
  have "inj_on ?f {i. bit w i}"
  proof (rule inj_onI)
    fix i j
    assume "i \<in> {i. bit w i}" "j \<in> {i. bit w i}" and eq: "?f i = ?f j"
    then have "i < 64" "j < 64" by (auto dest: bit_imp_le_length)
    with eq show "i = j" by simp
  qed
  then have "card (?f ` {i. bit w i}) = popcount w"
    by (simp add: card_image popcount_card)
  moreover have "finite (?f ` {i. bit w i})"
    by (rule finite_imageI) (rule finite_subset [of _ "{..<64}"], auto dest: bit_imp_le_length)
  ultimately show ?case
    using snoc.IH disj finite_testBit [of bits]
    by (simp add: split popcountBits_snoc card_Un_disjoint)
qed

lemma popcountBits_setBit:
  assumes "setBit bits pos = Inr bits'" and "\<not> testBit bits pos"
  shows "popcountBits bits' = popcountBits bits + 1"
proof -
  from assms(1) have pos: "pos < length bits * 64"
    and bits': "bits' = bits[pos div 64 := (bits ! (pos div 64)) OR 2 ^ (63 - pos mod 64)]"
    by (auto simp: setBit_conv split: if_splits)
  from pos have "{p. testBit bits' p} = insert pos {p. testBit bits p}"
    unfolding bits' by (auto simp: testBit_update)
  with assms(2) finite_testBit [of bits] show ?thesis
    by (simp add: popcountBits_card)
qed


section \<open>The invariant of the sparse pass\<close>

lemma nthE_simp [simp]: "i < length xs \<Longrightarrow> nthE xs i = Inr (xs ! i)"
  by (simp add: nthE_def)

lemma modifyE_simp [simp]:
  "i < length xs \<Longrightarrow> modifyE xs i f = bindE (f (xs ! i)) (\<lambda>y. Inr (xs[i := y]))"
  by (simp add: modifyE_def)

lemma getNumItems_simp [simp]:
  "level < length (labels s) \<Longrightarrow> getNumItems s level = Inr (length (labels s ! level))"
  by (simp add: getNumItems_def)

lemma snoc_update_last: "length xs = n \<Longrightarrow> (xs @ [x])[n := y] = xs @ [y]"
  by auto

lemma snoc_nth_last: "length xs = n \<Longrightarrow> (xs @ [x]) ! n = x"
  by auto

definition levelPre :: "label_t list \<Rightarrow> word_t list \<Rightarrow> word_t list \<Rightarrow> nat \<Rightarrow> bool" where
  "levelPre ls cb lb nc \<longleftrightarrow>
     length cb = length ls div 64 + 1 \<and> length lb = length ls div 64 + 1
     \<and> popcountBits lb = nc \<and> (\<forall>p. testBit lb p \<longrightarrow> p < length ls)"

definition levelInv :: "label_t list \<Rightarrow> word_t list \<Rightarrow> word_t list \<Rightarrow> nat \<Rightarrow> bool" where
  "levelInv ls cb lb nc \<longleftrightarrow> levelPre ls cb lb nc \<and> ls \<noteq> [] \<and> testBit lb 0"

definition lengthsInv :: "builder \<Rightarrow> bool" where
  "lengthsInv s \<longleftrightarrow>
     length (child_indicator_bits s) = length (labels s)
     \<and> length (louds_bits s) = length (labels s)
     \<and> length (node_counts s) = length (labels s)
     \<and> length (is_last_item_terminator s) = length (labels s)"

definition levelAt :: "(label_t list \<Rightarrow> word_t list \<Rightarrow> word_t list \<Rightarrow> nat \<Rightarrow> bool) \<Rightarrow> builder \<Rightarrow> nat \<Rightarrow> bool" where
  "levelAt P s L = P (labels s ! L) (child_indicator_bits s ! L) (louds_bits s ! L) (node_counts s ! L)"

definition sparseInv :: "builder \<Rightarrow> bool" where
  "sparseInv s \<longleftrightarrow> lengthsInv s \<and> (\<forall>L < length (labels s). levelAt levelInv s L)"

text \<open>the state between addLevel and the end of insertKeyByte: level k may still be empty\<close>
definition sparseInvAt :: "nat \<Rightarrow> builder \<Rightarrow> bool" where
  "sparseInvAt k s \<longleftrightarrow> lengthsInv s \<and> k < length (labels s)
     \<and> levelAt levelPre s k
     \<and> (labels s ! k \<noteq> [] \<longrightarrow> testBit (louds_bits s ! k) 0)
     \<and> (\<forall>L < length (labels s). L \<noteq> k \<longrightarrow> levelAt levelInv s L)"

lemma sparseInv_imp_At: "sparseInv s \<Longrightarrow> k < length (labels s) \<Longrightarrow> sparseInvAt k s"
  by (auto simp: sparseInv_def sparseInvAt_def levelAt_def levelInv_def)

lemma addLevel_sparseInv:
  assumes "sparseInv s"
  shows "\<exists>s'. addLevel s = Inr s' \<and> sparseInvAt (length (labels s)) s'
     \<and> labels s' = labels s @ [[]] \<and> positions s' = positions s @ [[]]"
proof -
  let ?s' = "s\<lparr> labels := labels s @ [[]], positions := positions s @ [[]],
      child_indicator_bits := child_indicator_bits s @ [[0]],
      louds_bits := louds_bits s @ [[0]],
      node_counts := node_counts s @ [0],
      is_last_item_terminator := is_last_item_terminator s @ [False] \<rparr>"
  from assms have len: "lengthsInv s" by (simp add: sparseInv_def)
  then have "addLevel s = Inr ?s'"
    by (simp add: addLevel_def Let_def getTreeHeight_def lengthsInv_def
        snoc_update_last snoc_nth_last)
  moreover have "levelPre [] [0] [0] 0"
    by (auto simp: levelPre_def popcountBits_def popcount_zero testBit_def)
  with assms have "sparseInvAt (length (labels s)) ?s'"
    by (auto simp: sparseInv_def sparseInvAt_def lengthsInv_def levelAt_def nth_append)
  ultimately show ?thesis by simp
qed

lemma setChildIndicatorOfLastItem_ok:
  assumes "lengthsInv s" "L < length (labels s)" "labels s ! L \<noteq> []"
    "length (child_indicator_bits s ! L) = length (labels s ! L) div 64 + 1"
  shows "\<exists>cb. setChildIndicatorOfLastItem L s
            = Inr (s\<lparr> child_indicator_bits := (child_indicator_bits s)[L := cb] \<rparr>)
          \<and> length cb = length (child_indicator_bits s ! L)"
proof -
  let ?n = "length (labels s ! L)"
  let ?cb = "child_indicator_bits s ! L"
  from assms have "?n - 1 < length ?cb * 64" by simp
  then obtain cb where cb: "setBit ?cb (?n - 1) = Inr cb" "length cb = length ?cb"
    by (simp add: setBit_conv)
  with assms show ?thesis
    by (auto simp: setChildIndicatorOfLastItem_def setBitLast_def lengthsInv_def)
qed


lemma levelInv_push:
  assumes pre: "levelPre ls cb lb nc"
    and st: "ls = [] \<longrightarrow> st"
    and b0: "ls \<noteq> [] \<longrightarrow> testBit lb 0"
    and lb1: "lb1 = (if st then lb[length ls div 64 := (lb ! (length ls div 64)) OR 2 ^ (63 - length ls mod 64)] else lb)"
    and nc': "nc' = (if st then nc + 1 else nc)"
    and cb': "cb' = (if (length ls + 1) mod 64 = 0 then cb @ [0] else cb)"
    and lb': "lb' = (if (length ls + 1) mod 64 = 0 then lb1 @ [0] else lb1)"
  shows "levelInv (ls @ [c]) cb' lb' nc'"
proof -
  let ?n = "length ls"
  from pre have len: "length cb = ?n div 64 + 1" "length lb = ?n div 64 + 1"
    and pc: "popcountBits lb = nc" and hi: "\<And>p. testBit lb p \<Longrightarrow> p < ?n"
    by (auto simp: levelPre_def)
  have inr: "?n < length lb * 64" using len by simp
  have t1: "testBit lb1 q \<longleftrightarrow> (st \<and> q = ?n) \<or> testBit lb q" for q
    using inr by (auto simp: lb1 testBit_update)
  have t': "testBit lb' q \<longleftrightarrow> testBit lb1 q" for q
    by (simp add: lb' testBit_snoc_zero)
  have l1: "length lb1 = length lb" by (simp add: lb1)
  have "popcountBits lb1 = nc'"
  proof (cases st)
    case False
    then show ?thesis by (simp add: lb1 nc' pc)
  next
    case True
    have "\<not> testBit lb ?n" using hi by blast
    moreover have "setBit lb ?n = Inr lb1" using inr True by (simp add: setBit_conv lb1)
    ultimately show ?thesis using True by (simp add: popcountBits_setBit nc' pc)
  qed
  then have "popcountBits lb' = nc'"
    by (simp add: lb' popcountBits_snoc popcount_zero)
  moreover have "length cb' = (?n + 1) div 64 + 1" by (simp add: cb' len div_Suc)
  moreover have "length lb' = (?n + 1) div 64 + 1" by (simp add: lb' l1 len div_Suc)
  moreover have "testBit lb' p \<Longrightarrow> p < ?n + 1" for p
    using hi [of p] by (auto simp: t' t1)
  moreover have "testBit lb' 0"
    using st b0 by (cases "ls = []") (auto simp: t' t1)
  ultimately show ?thesis
    by (auto simp: levelInv_def levelPre_def)
qed


lemma levelInv_cb: "levelInv ls cb lb nc \<Longrightarrow> length cb' = length cb \<Longrightarrow> levelInv ls cb' lb nc"
  by (simp add: levelInv_def levelPre_def)

lemma insertKeyByte_At:
  assumes inv: "sparseInvAt level s" and st: "labels s ! level = [] \<longrightarrow> st"
  shows "\<exists>s'. insertKeyByte c level st tm s = Inr s' \<and> sparseInv s'
     \<and> length (labels s') = length (labels s) \<and> positions s' = positions s"
proof -
  let ?H = "length (labels s)"
  let ?ls = "labels s ! level"
  let ?n = "length ?ls"
  let ?lb = "louds_bits s ! level"
  from inv have len: "lengthsInv s" and lv: "level < ?H"
    and pre: "levelPre ?ls (child_indicator_bits s ! level) ?lb (node_counts s ! level)"
    and b0: "?ls \<noteq> [] \<longrightarrow> testBit ?lb 0"
    and others: "\<And>L. L < ?H \<Longrightarrow> L \<noteq> level \<Longrightarrow> levelAt levelInv s L"
    by (auto simp: sparseInvAt_def levelAt_def)
  from len have lens: "length (child_indicator_bits s) = ?H" "length (louds_bits s) = ?H"
    "length (node_counts s) = ?H" "length (is_last_item_terminator s) = ?H"
    by (auto simp: lengthsInv_def)
  obtain C2 where C2: "(if level > 0 then setChildIndicatorOfLastItem (level - 1) s else Inr s)
        = Inr (s\<lparr>child_indicator_bits := C2\<rparr>)"
      and C2len: "length C2 = ?H"
      and C2each: "\<And>L. L < ?H \<Longrightarrow> length (C2 ! L) = length (child_indicator_bits s ! L)"
  proof (cases "level > 0")
    case False
    show ?thesis
      by (rule that [of "child_indicator_bits s"]) (use False lens in auto)
  next
    case True
    with lv have "level - 1 < ?H" "level - 1 \<noteq> level" by auto
    with others have "levelAt levelInv s (level - 1)" by blast
    then have "labels s ! (level - 1) \<noteq> []"
      "length (child_indicator_bits s ! (level - 1)) = length (labels s ! (level - 1)) div 64 + 1"
      by (auto simp: levelAt_def levelInv_def levelPre_def)
    with setChildIndicatorOfLastItem_ok [OF len \<open>level - 1 < ?H\<close>]
    obtain cb where cb: "setChildIndicatorOfLastItem (level - 1) s
          = Inr (s\<lparr>child_indicator_bits := (child_indicator_bits s)[level - 1 := cb]\<rparr>)"
        "length cb = length (child_indicator_bits s ! (level - 1))"
      by blast
    show ?thesis
    proof (rule that [of "(child_indicator_bits s)[level - 1 := cb]"])
      show "(if 0 < level then setChildIndicatorOfLastItem (level - 1) s else Inr s) =
        Inr (s\<lparr>child_indicator_bits := (child_indicator_bits s)[level - 1 := cb]\<rparr>)"
        using True cb by simp
      show "length ((child_indicator_bits s)[level - 1 := cb]) = ?H"
        using lens by simp
      show "length ((child_indicator_bits s)[level - 1 := cb] ! L) = length (child_indicator_bits s ! L)"
        if "L < ?H" for L
        using that cb(2) lens by (cases "L = level - 1") auto
    qed
  qed
  define lb1 where "lb1 = (if st then ?lb[?n div 64 := (?lb ! (?n div 64)) OR 2 ^ (63 - ?n mod 64)] else ?lb)"
  define nc' where "nc' = (if st then node_counts s ! level + 1 else node_counts s ! level)"
  define cb' where "cb' = (if (?n + 1) mod 64 = 0 then C2 ! level @ [0] else C2 ! level)"
  define lb' where "lb' = (if (?n + 1) mod 64 = 0 then lb1 @ [0] else lb1)"
  define s' where "s' = s\<lparr> child_indicator_bits := C2[level := cb'],
      labels := (labels s)[level := ?ls @ [c]],
      louds_bits := (louds_bits s)[level := lb'],
      node_counts := (node_counts s)[level := nc'],
      is_last_item_terminator := (is_last_item_terminator s)[level := tm] \<rparr>"
  from pre have inr: "?n < length ?lb * 64"
    by (simp add: levelPre_def)
  have run: "insertKeyByte c level st tm s = Inr s'"
    unfolding insertKeyByte_def
    using lv lens C2len inr
    by (simp add: C2 getTreeHeight_def Let_def setBitLast_def setBit_conv kWordSize_def
        moveToNextItemSlot_def s'_def lb1_def nc'_def cb'_def lb'_def)
  have pre2: "levelPre ?ls (C2 ! level) ?lb (node_counts s ! level)"
    using pre C2each [OF lv] by (simp add: levelPre_def)
  have lvl: "levelInv (?ls @ [c]) cb' lb' nc'"
    by (rule levelInv_push [OF pre2 st b0 lb1_def nc'_def cb'_def lb'_def])
  have "levelAt levelInv s' L" if "L < ?H" for L
  proof (cases "L = level")
    case True
    with lvl lv lens C2len show ?thesis
      by (simp add: levelAt_def s'_def)
  next
    case False
    from others [OF that False] have "levelInv (labels s ! L) (child_indicator_bits s ! L)
        (louds_bits s ! L) (node_counts s ! L)"
      by (simp add: levelAt_def)
    then have "levelInv (labels s ! L) (C2 ! L) (louds_bits s ! L) (node_counts s ! L)"
      by (rule levelInv_cb) (rule C2each [OF that])
    with False show ?thesis
      by (simp add: levelAt_def s'_def)
  qed
  moreover have "lengthsInv s'"
    using lens C2len by (simp add: lengthsInv_def s'_def)
  ultimately have "sparseInv s'"
    by (simp add: sparseInv_def s'_def)
  moreover have "length (labels s') = ?H" "positions s' = positions s"
    by (simp_all add: s'_def)
  ultimately show ?thesis using run by blast
qed


definition wf_sparse :: "builder \<Rightarrow> bool" where
  "wf_sparse s \<longleftrightarrow> sparseInv s \<and> length (positions s) = length (labels s)"

lemma insertKeyByte_wf:
  assumes wf: "wf_sparse s" and lv: "level \<le> length (labels s)"
    and st: "level = length (labels s) \<longrightarrow> st"
  shows "\<exists>s'. insertKeyByte c level st tm s = Inr s' \<and> wf_sparse s'
     \<and> length (labels s') = max (length (labels s)) (level + 1)"
proof (cases "level < length (labels s)")
  case True
  from wf have inv: "sparseInv s" by (simp add: wf_sparse_def)
  from inv True have ne: "labels s ! level \<noteq> []"
    by (auto simp: sparseInv_def levelAt_def levelInv_def)
  from insertKeyByte_At [OF sparseInv_imp_At [OF inv True], of st c tm] ne
  obtain s' where "insertKeyByte c level st tm s = Inr s'" "sparseInv s'"
    "length (labels s') = length (labels s)" "positions s' = positions s"
    by auto
  with wf True show ?thesis
    by (auto simp: wf_sparse_def)
next
  case False
  with lv have eq: "level = length (labels s)" by simp
  from wf have inv: "sparseInv s" by (simp add: wf_sparse_def)
  from addLevel_sparseInv [OF inv] obtain s1 where s1: "addLevel s = Inr s1"
    "sparseInvAt (length (labels s)) s1" "labels s1 = labels s @ [[]]"
    "positions s1 = positions s @ [[]]"
    by blast
  have same: "insertKeyByte c level st tm s = insertKeyByte c level st tm s1"
    using eq s1(1,3) by (simp add: insertKeyByte_def getTreeHeight_def)
  from insertKeyByte_At [of level s1 st c tm] s1(2) eq st
  obtain s' where "insertKeyByte c level st tm s1 = Inr s'" "sparseInv s'"
    "length (labels s') = length (labels s1)" "positions s' = positions s1"
    by auto
  with same s1(3,4) wf eq show ?thesis
    by (auto simp: wf_sparse_def)
qed

lemma isCharCommonPrefix_ok:
  assumes "sparseInv s"
  shows "isCharCommonPrefix c level s
     = Inr (level < length (labels s) \<and> \<not> is_last_item_terminator s ! level
            \<and> c = last (labels s ! level))"
proof (cases "level < length (labels s)")
  case False
  then show ?thesis by (simp add: isCharCommonPrefix_def getTreeHeight_def)
next
  case True
  with assms have "labels s ! level \<noteq> []" "level < length (is_last_item_terminator s)"
    by (auto simp: sparseInv_def levelAt_def levelInv_def lengthsInv_def)
  with True show ?thesis
    by (simp add: isCharCommonPrefix_def getTreeHeight_def)
qed

lemma setChildIndicatorOfLastItem_wf:
  assumes wf: "wf_sparse s" and lv: "L < length (labels s)"
  shows "\<exists>s'. setChildIndicatorOfLastItem L s = Inr s' \<and> wf_sparse s'
     \<and> labels s' = labels s"
proof -
  from wf have inv: "sparseInv s" and len: "lengthsInv s"
    by (simp_all add: wf_sparse_def sparseInv_def)
  from inv lv have lvl: "levelInv (labels s ! L) (child_indicator_bits s ! L)
        (louds_bits s ! L) (node_counts s ! L)"
    by (simp add: sparseInv_def levelAt_def)
  then have "labels s ! L \<noteq> []"
    "length (child_indicator_bits s ! L) = length (labels s ! L) div 64 + 1"
    by (auto simp: levelInv_def levelPre_def)
  from setChildIndicatorOfLastItem_ok [OF len lv this]
  obtain cb where cb: "setChildIndicatorOfLastItem L s
        = Inr (s\<lparr>child_indicator_bits := (child_indicator_bits s)[L := cb]\<rparr>)"
      "length cb = length (child_indicator_bits s ! L)"
    by blast
  let ?s' = "s\<lparr>child_indicator_bits := (child_indicator_bits s)[L := cb]\<rparr>"
  have "levelAt levelInv ?s' K" if "K < length (labels s)" for K
  proof (cases "K = L")
    case True
    from levelInv_cb [OF lvl cb(2)] True lv len show ?thesis
      by (simp add: levelAt_def lengthsInv_def)
  next
    case False
    with inv that show ?thesis
      by (simp add: sparseInv_def levelAt_def)
  qed
  moreover from len have "lengthsInv ?s'" by (simp add: lengthsInv_def)
  ultimately have "wf_sparse ?s'"
    using wf by (simp add: wf_sparse_def sparseInv_def)
  with cb(1) show ?thesis by simp
qed

lemma skipCommonPrefix_loop_wf:
  assumes "wf_sparse s" and "level \<le> length (labels s)"
  shows "\<exists>lvl s'. skipCommonPrefix_loop key level s = Inr (lvl, s') \<and> wf_sparse s'
     \<and> labels s' = labels s \<and> lvl \<le> length (labels s)"
  using assms
proof (induction key level s rule: skipCommonPrefix_loop.induct)
  case (1 key level s)
  from \<open>wf_sparse s\<close> have inv: "sparseInv s" by (simp add: wf_sparse_def)
  let ?common = "level < length (labels s) \<and> \<not> is_last_item_terminator s ! level
            \<and> key ! level = last (labels s ! level)"
  show ?case
  proof (cases "level < length key \<and> ?common")
    case False
    then show ?thesis
      using "1.prems" by (subst skipCommonPrefix_loop.simps)
        (auto simp: isCharCommonPrefix_ok [OF inv])
  next
    case True
    then have lv: "level < length (labels s)" by simp
    from setChildIndicatorOfLastItem_wf [OF \<open>wf_sparse s\<close> lv]
    obtain s1 where s1: "setChildIndicatorOfLastItem level s = Inr s1" "wf_sparse s1"
      "labels s1 = labels s"
      by blast
    have "isCharCommonPrefix (key ! level) level s = Inr True"
      using True by (simp add: isCharCommonPrefix_ok [OF inv])
    from "1.IH" [OF _ this _ s1(1) s1(2)] True lv s1(3)
    obtain lvl s' where "skipCommonPrefix_loop key (level + 1) s1 = Inr (lvl, s')"
      "wf_sparse s'" "labels s' = labels s1" "lvl \<le> length (labels s1)"
      by auto
    with True s1 \<open>isCharCommonPrefix (key ! level) level s = Inr True\<close> show ?thesis
      by (subst skipCommonPrefix_loop.simps) simp
  qed
qed


lemma insertKeyBytes_loop_wf:
  assumes "wf_sparse s" and "level \<le> length (labels s)" and "0 < level"
  shows "\<exists>lvl s'. insertKeyBytes_loop key next_key level s = Inr (lvl, s') \<and> wf_sparse s'
     \<and> 0 < lvl \<and> lvl \<le> length (labels s')"
  using assms
proof (induction key next_key level s rule: insertKeyBytes_loop.induct)
  case (1 key next_key level s)
  let ?go = "level < length key \<and> level < length next_key
         \<and> key ! (level - 1) = next_key ! (level - 1)"
  show ?case
  proof (cases ?go)
    case False
    then show ?thesis
      using "1.prems" by (subst insertKeyBytes_loop.simps) auto
  next
    case True
    from insertKeyByte_wf [OF "1.prems"(1,2), of True "key ! level" False]
    obtain s1 where s1: "insertKeyByte (key ! level) level True False s = Inr s1"
      "wf_sparse s1" "length (labels s1) = max (length (labels s)) (level + 1)"
      by auto
    then have "level + 1 \<le> length (labels s1)" by simp
    from "1.IH" [OF True s1(1) s1(2) this]
    obtain lvl s' where "insertKeyBytes_loop key next_key (level + 1) s1 = Inr (lvl, s')"
      "wf_sparse s'" "0 < lvl" "lvl \<le> length (labels s')"
      by auto
    with True s1(1) show ?thesis
      by (subst insertKeyBytes_loop.simps) simp
  qed
qed

lemma emplacePosition_wf:
  assumes "wf_sparse s" and "level < length (labels s)"
  shows "\<exists>s'. emplacePosition level position s = Inr s' \<and> wf_sparse s'"
  using assms
  by (auto simp: emplacePosition_def wf_sparse_def sparseInv_def lengthsInv_def levelAt_def)

lemma insertKeyBytesToTrieUntilUnique_wf:
  assumes wf: "wf_sparse s" and lv: "start_level \<le> length (labels s)"
  shows "(\<exists>lvl s'. insertKeyBytesToTrieUntilUnique key position next_key start_level s
            = Inr (lvl, s') \<and> wf_sparse s')
       \<or> insertKeyBytesToTrieUntilUnique key position next_key start_level s
            = Inl StartLevelPastKey"
proof (cases "start_level < length key")
  case False
  then show ?thesis by (simp add: insertKeyBytesToTrieUntilUnique_def)
next
  case True
  from wf have inv: "sparseInv s" by (simp add: wf_sparse_def)
  have "start_level = length (labels s) \<longrightarrow> isLevelEmpty start_level s"
    by (simp add: isLevelEmpty_def getTreeHeight_def)
  from insertKeyByte_wf [OF wf lv this, of "key ! start_level" False]
  obtain s1 where s1: "insertKeyByte (key ! start_level) start_level
        (isLevelEmpty start_level s) False s = Inr s1"
    "wf_sparse s1" "length (labels s1) = max (length (labels s)) (start_level + 1)"
    by auto
  then have lv1: "start_level + 1 \<le> length (labels s1)" by simp
  show ?thesis
  proof (cases "start_level + 1 > length next_key
      \<or> \<not> isSameKey (take (start_level + 1) key) (take (start_level + 1) next_key)")
    case stop: True
    from emplacePosition_wf [OF s1(2), of start_level position] lv1
    obtain s2 where "emplacePosition start_level position s1 = Inr s2" "wf_sparse s2"
      by auto
    with True s1(1) stop show ?thesis
      by (auto simp: insertKeyBytesToTrieUntilUnique_def Let_def)
  next
    case go: False
    from insertKeyBytes_loop_wf [OF s1(2) lv1, of key next_key]
    obtain lvl s2 where s2: "insertKeyBytes_loop key next_key (start_level + 1) s1 = Inr (lvl, s2)"
      "wf_sparse s2" "0 < lvl" "lvl \<le> length (labels s2)"
      by auto
    from s2(3,4) have "lvl - 1 < length (labels s2)" by simp
    from emplacePosition_wf [OF s2(2) this, of position]
    obtain s3 where "emplacePosition (lvl - 1) position s2 = Inr s3" "wf_sparse s3"
      by auto
    with True s1(1) go s2(1) show ?thesis
      by (auto simp: insertKeyBytesToTrieUntilUnique_def Let_def)
  qed
qed

lemma buildSparse_loop_wf:
  assumes "wf_sparse s"
  shows "(\<exists>s'. buildSparse_loop keys i s = Inr s' \<and> wf_sparse s')
       \<or> buildSparse_loop keys i s = Inl StartLevelPastKey"
  using assms
proof (induction keys i s rule: buildSparse_loop.induct)
  case (1 keys i s)
  show ?case
  proof (cases "i < length keys")
    case False
    with "1.prems" show ?thesis
      by (subst buildSparse_loop.simps) simp
  next
    case True
    from skipCommonPrefix_loop_wf [OF "1.prems", of 0 "keys ! i"]
    obtain level s1 where s1: "skipCommonPrefix (keys ! i) s = Inr (level, s1)"
      "wf_sparse s1" "level \<le> length (labels s1)"
      by (auto simp: skipCommonPrefix_def)
    define j where "j = skipSameKeys keys i i"
    define next_key where "next_key = (if j < length keys - 1 then keys ! (j + 1) else [])"
    let ?ins = "insertKeyBytesToTrieUntilUnique (keys ! i) i next_key level s1"
    have unfold: "buildSparse_loop keys i s
        = bindE ?ins (\<lambda>(_, s2). buildSparse_loop keys (j + 1) s2)"
      using True s1(1)
      by (subst buildSparse_loop.simps) (simp add: Let_def j_def next_key_def)
    from insertKeyBytesToTrieUntilUnique_wf [OF s1(2,3), of "keys ! i" i next_key]
    show ?thesis
    proof
      assume "?ins = Inl StartLevelPastKey"
      with unfold show ?thesis by simp
    next
      assume "\<exists>lvl s'. ?ins = Inr (lvl, s') \<and> wf_sparse s'"
      then obtain lvl s2 where s2: "?ins = Inr (lvl, s2)" "wf_sparse s2" by blast
      have "(if j < length keys - 1
            then insertKeyBytesToTrieUntilUnique (keys ! i) i (keys ! (j + 1)) level s1
            else insertKeyBytesToTrieUntilUnique (keys ! i) i [] level s1) = Inr (lvl, s2)"
        using s2(1) by (cases "j < length keys - 1") (simp_all add: next_key_def)
      from "1.IH" [OF True s1(1) refl refl j_def this refl s2(2)] unfold s2(1)
      show ?thesis by simp
    qed
  qed
qed

section \<open>The dense pass leaves the sparse vectors alone\<close>

definition eraseDense :: "builder \<Rightarrow> builder" where
  "eraseDense s = s\<lparr> bitmap_labels := [], bitmap_child_indicator_bits := [],
     prefixkey_indicator_bits := [] \<rparr>"

lemma eraseDense_fields:
  assumes "eraseDense s' = eraseDense s"
  shows "labels s' = labels s" "child_indicator_bits s' = child_indicator_bits s"
    "louds_bits s' = louds_bits s" "node_counts s' = node_counts s"
    "sparse_start_level s' = sparse_start_level s" "positions s' = positions s"
    "positions_dense s' = positions_dense s" "positions_sparse s' = positions_sparse s"
    "is_last_item_terminator s' = is_last_item_terminator s"
    "sparse_dense_ratio s' = sparse_dense_ratio s" "include_dense s' = include_dense s"
proof -
  have "labels (eraseDense s') = labels (eraseDense s)" using assms by simp
  then show "labels s' = labels s" by (simp add: eraseDense_def)
  have "child_indicator_bits (eraseDense s') = child_indicator_bits (eraseDense s)"
    using assms by simp
  then show "child_indicator_bits s' = child_indicator_bits s" by (simp add: eraseDense_def)
  have "louds_bits (eraseDense s') = louds_bits (eraseDense s)" using assms by simp
  then show "louds_bits s' = louds_bits s" by (simp add: eraseDense_def)
  have "node_counts (eraseDense s') = node_counts (eraseDense s)" using assms by simp
  then show "node_counts s' = node_counts s" by (simp add: eraseDense_def)
  have "sparse_start_level (eraseDense s') = sparse_start_level (eraseDense s)"
    using assms by simp
  then show "sparse_start_level s' = sparse_start_level s" by (simp add: eraseDense_def)
  have "positions (eraseDense s') = positions (eraseDense s)" using assms by simp
  then show "positions s' = positions s" by (simp add: eraseDense_def)
  have "positions_dense (eraseDense s') = positions_dense (eraseDense s)" using assms by simp
  then show "positions_dense s' = positions_dense s" by (simp add: eraseDense_def)
  have "positions_sparse (eraseDense s') = positions_sparse (eraseDense s)" using assms by simp
  then show "positions_sparse s' = positions_sparse s" by (simp add: eraseDense_def)
  have "is_last_item_terminator (eraseDense s') = is_last_item_terminator (eraseDense s)"
    using assms by simp
  then show "is_last_item_terminator s' = is_last_item_terminator s"
    by (simp add: eraseDense_def)
  have "sparse_dense_ratio (eraseDense s') = sparse_dense_ratio (eraseDense s)"
    using assms by simp
  then show "sparse_dense_ratio s' = sparse_dense_ratio s" by (simp add: eraseDense_def)
  have "include_dense (eraseDense s') = include_dense (eraseDense s)" using assms by simp
  then show "include_dense s' = include_dense s" by (simp add: eraseDense_def)
qed

lemma setPrefixkeyIndicator_frame:
  "setPrefixkeyIndicator level node_num s = Inr s' \<Longrightarrow> eraseDense s' = eraseDense s"
  by (auto simp: setPrefixkeyIndicator_def bindE_eq_Inr eraseDense_def)

lemma setLabelAndChildIndicatorBitmap_frame:
  "setLabelAndChildIndicatorBitmap level node_num pos s = Inr s' \<Longrightarrow> eraseDense s' = eraseDense s"
  by (auto simp: setLabelAndChildIndicatorBitmap_def bindE_eq_Inr Let_def eraseDense_def
      split: if_splits)

lemma initDenseVectors_node_frame:
  "initDenseVectors_node level nc s = Inr s' \<Longrightarrow> eraseDense s' = eraseDense s"
  by (auto simp: initDenseVectors_node_def bindE_eq_Inr eraseDense_def split: if_splits)

lemma initDenseVectors_fold_frame:
  "fold (\<lambda>nc r. bindE r (initDenseVectors_node level nc)) [0..<n] (Inr s1) = Inr s'
     \<Longrightarrow> eraseDense s' = eraseDense s1"
proof (induction n arbitrary: s')
  case 0
  then show ?case by simp
next
  case (Suc n)
  from Suc.prems obtain s2
    where s2: "fold (\<lambda>nc r. bindE r (initDenseVectors_node level nc)) [0..<n] (Inr s1) = Inr s2"
      and s': "initDenseVectors_node level n s2 = Inr s'"
    by (auto simp: bindE_eq_Inr)
  from Suc.IH [OF s2] initDenseVectors_node_frame [OF s'] show ?case by simp
qed

lemma initDenseVectors_frame:
  assumes "initDenseVectors level s = Inr s'"
  shows "eraseDense s' = eraseDense s"
proof -
  let ?s1 = "s\<lparr> bitmap_labels := bitmap_labels s @ [[]],
                  bitmap_child_indicator_bits := bitmap_child_indicator_bits s @ [[]],
                  prefixkey_indicator_bits := prefixkey_indicator_bits s @ [[]] \<rparr>"
  from assms obtain n
    where "fold (\<lambda>nc r. bindE r (initDenseVectors_node level nc)) [0..<n] (Inr ?s1) = Inr s'"
    by (auto simp: initDenseVectors_def Let_def bindE_eq_Inr)
  from initDenseVectors_fold_frame [OF this] show ?thesis
    by (simp add: eraseDense_def)
qed

lemma buildDense_slot_frame:
  "buildDense_slot kT level node_num pos s = Inr (node_num', s') \<Longrightarrow> eraseDense s' = eraseDense s"
  by (auto simp: buildDense_slot_def bindE_eq_Inr Let_def split: if_splits
      dest: setPrefixkeyIndicator_frame setLabelAndChildIndicatorBitmap_frame)

lemma buildDense_slots_frame:
  "buildDense_slots kT level node_num pos s = Inr s' \<Longrightarrow> eraseDense s' = eraseDense s"
proof (induction kT level node_num pos s rule: buildDense_slots.induct)
  case (1 kT level node_num pos s)
  from "1.prems" obtain N where N: "getNumItems s level = Inr N"
    and rest: "(if pos < N then
         bindE (buildDense_slot kT level node_num pos s) (\<lambda>(node_num, s').
           buildDense_slots kT level node_num (pos + 1) s')
       else Inr s) = Inr s'"
    by (subst (asm) buildDense_slots.simps) (auto simp: bindE_eq_Inr)
  show ?case
  proof (cases "pos < N")
    case False
    with rest show ?thesis by simp
  next
    case True
    with rest obtain nn s1 where s1: "buildDense_slot kT level node_num pos s = Inr (nn, s1)"
      and s': "buildDense_slots kT level nn (pos + 1) s1 = Inr s'"
      by (auto simp: bindE_eq_Inr)
    from "1.IH" [OF N True s1 refl s'] buildDense_slot_frame [OF s1]
    show ?thesis by simp
  qed
qed

lemma buildDense_level_frame:
  assumes "buildDense_level kT level s = Inr s'"
  shows "eraseDense s' = eraseDense s"
proof -
  from assms obtain s1 N where s1: "initDenseVectors level s = Inr s1"
    and N: "getNumItems s1 level = Inr N"
    and rest: "(if N = 0 then Inr s1
       else bindE (isTerminator kT level 0 s1) (\<lambda>is_t.
         bindE (if is_t then setPrefixkeyIndicator level 0 s1
                else setLabelAndChildIndicatorBitmap level 0 0 s1) (\<lambda>s2.
         buildDense_slots kT level 0 1 s2))) = Inr s'"
    unfolding buildDense_level_def Let_def by (auto simp: bindE_eq_Inr)
  note f1 = initDenseVectors_frame [OF s1]
  show ?thesis
  proof (cases "N = 0")
    case True
    with rest f1 show ?thesis by simp
  next
    case False
    with rest obtain is_t s2
      where s2: "(if is_t then setPrefixkeyIndicator level 0 s1
                else setLabelAndChildIndicatorBitmap level 0 0 s1) = Inr s2"
        and s': "buildDense_slots kT level 0 1 s2 = Inr s'"
      by (auto simp: bindE_eq_Inr)
    from s2 have "eraseDense s2 = eraseDense s1"
      by (auto split: if_splits
          dest: setPrefixkeyIndicator_frame setLabelAndChildIndicatorBitmap_frame)
    with buildDense_slots_frame [OF s'] f1 show ?thesis by simp
  qed
qed

lemma buildDense_fold_frame:
  "fold (\<lambda>level r. bindE r (buildDense_level kT level)) [0..<n] (Inr s) = Inr s'
     \<Longrightarrow> eraseDense s' = eraseDense s"
proof (induction n arbitrary: s')
  case 0
  then show ?case by simp
next
  case (Suc n)
  from Suc.prems obtain s2
    where s2: "fold (\<lambda>level r. bindE r (buildDense_level kT level)) [0..<n] (Inr s) = Inr s2"
      and s': "buildDense_level kT n s2 = Inr s'"
    by (auto simp: bindE_eq_Inr)
  from Suc.IH [OF s2] buildDense_level_frame [OF s'] show ?case by simp
qed

lemma buildDense_frame:
  "buildDense kT s = Inr s' \<Longrightarrow> eraseDense s' = eraseDense s"
  unfolding buildDense_def by (rule buildDense_fold_frame)

section \<open>The sparse pass leaves the configuration and the dense vectors alone\<close>

definition eraseSparse :: "builder \<Rightarrow> builder" where
  "eraseSparse s = s\<lparr> positions := [], labels := [], child_indicator_bits := [],
     louds_bits := [], node_counts := [], is_last_item_terminator := [] \<rparr>"

lemma eraseSparse_fields:
  assumes "eraseSparse s' = eraseSparse s"
  shows "include_dense s' = include_dense s" "sparse_dense_ratio s' = sparse_dense_ratio s"
    "sparse_start_level s' = sparse_start_level s"
    "positions_dense s' = positions_dense s" "positions_sparse s' = positions_sparse s"
    "bitmap_labels s' = bitmap_labels s"
    "bitmap_child_indicator_bits s' = bitmap_child_indicator_bits s"
    "prefixkey_indicator_bits s' = prefixkey_indicator_bits s"
proof -
  have "include_dense (eraseSparse s') = include_dense (eraseSparse s)" using assms by simp
  then show "include_dense s' = include_dense s" by (simp add: eraseSparse_def)
  have "sparse_dense_ratio (eraseSparse s') = sparse_dense_ratio (eraseSparse s)"
    using assms by simp
  then show "sparse_dense_ratio s' = sparse_dense_ratio s" by (simp add: eraseSparse_def)
  have "sparse_start_level (eraseSparse s') = sparse_start_level (eraseSparse s)"
    using assms by simp
  then show "sparse_start_level s' = sparse_start_level s" by (simp add: eraseSparse_def)
  have "positions_dense (eraseSparse s') = positions_dense (eraseSparse s)"
    using assms by simp
  then show "positions_dense s' = positions_dense s" by (simp add: eraseSparse_def)
  have "positions_sparse (eraseSparse s') = positions_sparse (eraseSparse s)"
    using assms by simp
  then show "positions_sparse s' = positions_sparse s" by (simp add: eraseSparse_def)
  have "bitmap_labels (eraseSparse s') = bitmap_labels (eraseSparse s)" using assms by simp
  then show "bitmap_labels s' = bitmap_labels s" by (simp add: eraseSparse_def)
  have "bitmap_child_indicator_bits (eraseSparse s')
      = bitmap_child_indicator_bits (eraseSparse s)"
    using assms by simp
  then show "bitmap_child_indicator_bits s' = bitmap_child_indicator_bits s"
    by (simp add: eraseSparse_def)
  have "prefixkey_indicator_bits (eraseSparse s') = prefixkey_indicator_bits (eraseSparse s)"
    using assms by simp
  then show "prefixkey_indicator_bits s' = prefixkey_indicator_bits s"
    by (simp add: eraseSparse_def)
qed

lemma eraseSparse_upd [simp]:
  "eraseSparse (s\<lparr>labels := a\<rparr>) = eraseSparse s"
  "eraseSparse (s\<lparr>positions := b\<rparr>) = eraseSparse s"
  "eraseSparse (s\<lparr>child_indicator_bits := c\<rparr>) = eraseSparse s"
  "eraseSparse (s\<lparr>louds_bits := d\<rparr>) = eraseSparse s"
  "eraseSparse (s\<lparr>node_counts := e\<rparr>) = eraseSparse s"
  "eraseSparse (s\<lparr>is_last_item_terminator := f\<rparr>) = eraseSparse s"
  by (simp_all add: eraseSparse_def)

lemma addLevel_frame: "addLevel s = Inr s' \<Longrightarrow> eraseSparse s' = eraseSparse s"
  by (auto simp: addLevel_def Let_def bindE_eq_Inr modifyE_def eraseSparse_def split: if_splits)

lemma setChildIndicatorOfLastItem_frame:
  "setChildIndicatorOfLastItem level s = Inr s' \<Longrightarrow> eraseSparse s' = eraseSparse s"
  by (auto simp: setChildIndicatorOfLastItem_def bindE_eq_Inr eraseSparse_def)

lemma moveToNextItemSlot_frame:
  "moveToNextItemSlot level s = Inr s' \<Longrightarrow> eraseSparse s' = eraseSparse s"
  by (auto simp: moveToNextItemSlot_def bindE_eq_Inr modifyE_def eraseSparse_def
      split: if_splits)

lemma insertKeyByte_frame:
  assumes "insertKeyByte c level st tm s = Inr s'"
  shows "eraseSparse s' = eraseSparse s"
  using assms unfolding insertKeyByte_def Let_def
  by (auto simp: bindE_eq_Inr split: if_splits
      dest!: addLevel_frame setChildIndicatorOfLastItem_frame moveToNextItemSlot_frame)

lemma skipCommonPrefix_loop_frame:
  "skipCommonPrefix_loop key level s = Inr (lvl, s') \<Longrightarrow> eraseSparse s' = eraseSparse s"
proof (induction key level s rule: skipCommonPrefix_loop.induct)
  case (1 key level s)
  show ?case
  proof (cases "level < length key \<and> isCharCommonPrefix (key ! level) level s = Inr True")
    case False
    with "1.prems" show ?thesis
      by (subst (asm) skipCommonPrefix_loop.simps)
        (auto simp: bindE_eq_Inr split: if_splits)
  next
    case True
    with "1.prems" obtain s1 where s1: "setChildIndicatorOfLastItem level s = Inr s1"
      and s': "skipCommonPrefix_loop key (level + 1) s1 = Inr (lvl, s')"
      by (subst (asm) skipCommonPrefix_loop.simps) (auto simp: bindE_eq_Inr)
    from "1.IH" [OF _ _ _ s1 s'] True setChildIndicatorOfLastItem_frame [OF s1]
    show ?thesis by simp
  qed
qed

lemma insertKeyBytes_loop_frame:
  "insertKeyBytes_loop key next_key level s = Inr (lvl, s') \<Longrightarrow> eraseSparse s' = eraseSparse s"
proof (induction key next_key level s rule: insertKeyBytes_loop.induct)
  case (1 key next_key level s)
  show ?case
  proof (cases "level < length key \<and> level < length next_key
         \<and> key ! (level - 1) = next_key ! (level - 1)")
    case False
    with "1.prems" show ?thesis
      by (subst (asm) insertKeyBytes_loop.simps) auto
  next
    case True
    with "1.prems" obtain s1 where s1: "insertKeyByte (key ! level) level True False s = Inr s1"
      and s': "insertKeyBytes_loop key next_key (level + 1) s1 = Inr (lvl, s')"
      by (subst (asm) insertKeyBytes_loop.simps) (auto simp: bindE_eq_Inr)
    from "1.IH" [OF True s1 s'] insertKeyByte_frame [OF s1]
    show ?thesis by simp
  qed
qed

lemma emplacePosition_frame:
  "emplacePosition level position s = Inr s' \<Longrightarrow> eraseSparse s' = eraseSparse s"
  by (auto simp: emplacePosition_def bindE_eq_Inr eraseSparse_def)

lemma insertKeyBytesToTrieUntilUnique_frame:
  assumes "insertKeyBytesToTrieUntilUnique key position next_key start_level s = Inr (lvl, s')"
  shows "eraseSparse s' = eraseSparse s"
proof -
  from assms obtain s1
    where s1: "insertKeyByte (key ! start_level) start_level (isLevelEmpty start_level s) False s
        = Inr s1"
      and rest: "(if start_level + 1 > length next_key
           \<or> \<not> isSameKey (take (start_level + 1) key) (take (start_level + 1) next_key) then
          bindE (emplacePosition (start_level + 1 - 1) position s1)
            (\<lambda>s2. Inr (start_level + 1, s2))
        else
          bindE (insertKeyBytes_loop key next_key (start_level + 1) s1) (\<lambda>(level, s2).
          bindE (emplacePosition (level - 1) position s2) (\<lambda>s3. Inr (level, s3))))
        = Inr (lvl, s')"
    unfolding insertKeyBytesToTrieUntilUnique_def Let_def
    by (auto simp: bindE_eq_Inr split: if_splits)
  from rest have "eraseSparse s' = eraseSparse s1"
    by (auto simp: bindE_eq_Inr split: if_splits
        dest!: emplacePosition_frame insertKeyBytes_loop_frame)
  with insertKeyByte_frame [OF s1] show ?thesis by simp
qed

lemma buildSparse_loop_frame:
  "buildSparse_loop keys i s = Inr s' \<Longrightarrow> eraseSparse s' = eraseSparse s"
proof (induction keys i s rule: buildSparse_loop.induct)
  case (1 keys i s)
  show ?case
  proof (cases "i < length keys")
    case False
    with "1.prems" show ?thesis
      by (subst (asm) buildSparse_loop.simps) simp
  next
    case True
    let ?j = "skipSameKeys keys i i"
    from "1.prems" True obtain level s1 lvl s2
      where s1: "skipCommonPrefix (keys ! i) s = Inr (level, s1)"
        and s2: "(if ?j < length keys - 1 then
                   insertKeyBytesToTrieUntilUnique (keys ! i) i (keys ! (?j + 1)) level s1
                 else
                   insertKeyBytesToTrieUntilUnique (keys ! i) i [] level s1) = Inr (lvl, s2)"
        and s': "buildSparse_loop keys (?j + 1) s2 = Inr s'"
      by (subst (asm) buildSparse_loop.simps)
        (auto simp: bindE_eq_Inr Let_def)
    from s1 have "eraseSparse s1 = eraseSparse s"
      by (auto simp: skipCommonPrefix_def dest: skipCommonPrefix_loop_frame)
    moreover from s2 have "eraseSparse s2 = eraseSparse s1"
      by (auto split: if_splits dest: insertKeyBytesToTrieUntilUnique_frame)
    moreover from "1.IH" [OF True s1 refl refl refl s2 refl s']
    have "eraseSparse s' = eraseSparse s2" .
    ultimately show ?thesis by simp
  qed
qed

lemma buildSparse_frame:
  "buildSparse keys s = Inr s' \<Longrightarrow> eraseSparse s' = eraseSparse s"
  unfolding buildSparse_def by (rule buildSparse_loop_frame)

section \<open>The cut-off policy\<close>

text \<open>The two sizes as sums over the levels.  \<open>dense_mem_floor\<close> and \<open>sparse_mem_floor\<close>
  are the sums the source computes: the divisions are integer divisions, and the term of
  every level is evaluated in \<^verbatim>\<open>position_t\<close>, modulo \<open>2 ^ 32\<close>.  \<open>dense_mem_ceil\<close> and
  \<open>sparse_mem_ceil\<close> are the sums of the specification, with the divisions rounded up and
  no bound on the numbers.\<close>

definition dense_mem_floor :: "nat list \<Rightarrow> nat \<Rightarrow> nat" where
  "dense_mem_floor nc L =
     (\<Sum>l\<leftarrow>[0..<L]. to_position_t (2 * 256 * to_position_t (nc ! l))
        + (if l > 0 then to_position_t (to_position_t (nc ! (l - 1)) div 8 + 1) else 0))"

definition sparse_mem_floor :: "label_t list list \<Rightarrow> nat \<Rightarrow> nat" where
  "sparse_mem_floor lab L =
     (\<Sum>l\<leftarrow>[L..<length lab].
        to_position_t (to_position_t (length (lab ! l))
          + to_position_t (2 * to_position_t (length (lab ! l))) div 8 + 1))"



text \<open>The loop condition of \<^verbatim>\<open>determineCutoffLevel\<close> at level \<open>L\<close>: the sums, the product
  and the comparison are those of \<^verbatim>\<open>uint64_t\<close>.\<close>

definition cutoff_continues :: "builder \<Rightarrow> nat \<Rightarrow> bool" where
  "cutoff_continues s L \<longleftrightarrow>
     L < getTreeHeight s
     \<and> (dense_mem_floor (node_counts s) L * unat (sparse_dense_ratio s)) mod 2 ^ 64
         < sparse_mem_floor (labels s) L mod 2 ^ 64"


lemma fold_add_of_nat:
  "fold (\<lambda>l (mem :: 64 word). mem + of_nat (f l)) xs a = a + of_nat (sum_list (map f xs))"
  by (induction xs arbitrary: a) (simp_all add: algebra_simps)

lemma computeDenseMem_formula:
  assumes "L \<le> getTreeHeight s" "L \<le> length (node_counts s)"
  shows "computeDenseMem L s = Inr (of_nat (dense_mem_floor (node_counts s) L))"
proof -
  define g where "g = (\<lambda>l. to_position_t (2 * 256 * to_position_t (node_counts s ! l))
            + (if l > 0 then to_position_t (to_position_t (node_counts s ! (l - 1)) div 8 + 1)
               else 0))"
  have eq: "(\<lambda>level (mem :: 64 word).
          let mem = mem + of_nat (to_position_t
                      (2 * kFanout * to_position_t (node_counts s ! level)))
          in if level > 0 then
               mem + of_nat (to_position_t
                       (to_position_t (node_counts s ! (level - 1)) div 8 + 1))
             else mem)
      = (\<lambda>level mem. mem + of_nat (g level))"
    by (intro ext) (simp add: Let_def kFanout_def g_def)
  have "computeDenseMem L s = Inr (fold (\<lambda>level mem. mem + of_nat (g level)) [0..<L] 0)"
    using assms unfolding computeDenseMem_def eq by simp
  also have "\<dots> = Inr (of_nat (sum_list (map g [0..<L])))"
    by (simp only: fold_add_of_nat add_0)
  finally show ?thesis
    by (simp only: dense_mem_floor_def g_def)
qed

lemma computeSparseMem_formula:
  "computeSparseMem L s = of_nat (sparse_mem_floor (labels s) L)"
proof -
  define g where "g = (\<lambda>l. to_position_t (to_position_t (length (labels s ! l))
            + to_position_t (2 * to_position_t (length (labels s ! l))) div 8 + 1))"
  have eq: "(\<lambda>level (mem :: 64 word).
            let num_items = to_position_t (length (labels s ! level))
            in mem + of_nat (to_position_t
                       (num_items + to_position_t (2 * num_items) div 8 + 1)))
      = (\<lambda>level mem. mem + of_nat (g level))"
    by (intro ext) (simp only: Let_def g_def)
  have "computeSparseMem L s = fold (\<lambda>level mem. mem + of_nat (g level)) [L..<length (labels s)] 0"
    unfolding computeSparseMem_def eq getTreeHeight_def by (rule refl)
  also have "\<dots> = of_nat (sum_list (map g [L..<length (labels s)]))"
    by (simp only: fold_add_of_nat add_0)
  finally show ?thesis
    by (simp only: sparse_mem_floor_def g_def)
qed

lemma cutoff_test_conv:
  "(of_nat d :: 64 word) * ucast (r :: 32 word) < of_nat m
     \<longleftrightarrow> (d * unat r) mod 2 ^ 64 < m mod 2 ^ 64"
proof -
  have "unat r < 2 ^ 32" using unsigned_less [of r] by simp
  also have "(2::nat) ^ 32 \<le> 2 ^ 64" by simp
  finally have "take_bit 64 (unat r) = unat r"
    by (rule take_bit_nat_eq_self)
  then have "unat (ucast r :: 64 word) = unat r"
    by (simp add: unsigned_ucast_eq)
  then have "unat ((of_nat d :: 64 word) * ucast r) = (d * unat r) mod 2 ^ 64"
    by (simp add: unat_word_ariths unat_of_nat mod_mult_left_eq)
  then show ?thesis
    by (simp add: word_less_nat_alt unat_of_nat)
qed

lemma cutoff_loop_first_failing:
  assumes "length (node_counts s) = getTreeHeight s" and "L \<le> getTreeHeight s"
  shows "\<exists>c. cutoff_loop L s = Inr c \<and> L \<le> c \<and> c \<le> getTreeHeight s
     \<and> \<not> cutoff_continues s c \<and> (\<forall>L'. L \<le> L' \<and> L' < c \<longrightarrow> cutoff_continues s L')"
  using assms
proof (induction "getTreeHeight s - L" arbitrary: L)
  case 0
  then have L: "L = getTreeHeight s" by simp
  then have "\<not> cutoff_continues s L" by (simp add: cutoff_continues_def)
  moreover have "cutoff_loop L s = Inr L"
    using L "0.prems"
    by (subst cutoff_loop.simps) (simp add: computeDenseMem_formula Let_def)
  ultimately show ?case using L by auto
next
  case (Suc n)
  then have lt: "L < getTreeHeight s" by simp
  have test: "(L < getTreeHeight s \<and>
        of_nat (dense_mem_floor (node_counts s) L) * ucast (sparse_dense_ratio s)
          < computeSparseMem L s) = cutoff_continues s L"
    by (simp add: computeSparseMem_formula cutoff_test_conv cutoff_continues_def)
  have dm: "computeDenseMem L s = Inr (of_nat (dense_mem_floor (node_counts s) L))"
    using Suc.prems by (simp add: computeDenseMem_formula)
  show ?case
  proof (cases "cutoff_continues s L")
    case False
    have "cutoff_loop L s = Inr L"
      by (subst cutoff_loop.simps) (simp add: dm Let_def test False)
    with False lt show ?thesis by auto
  next
    case True
    have step: "cutoff_loop L s = cutoff_loop (L + 1) s"
      by (subst cutoff_loop.simps) (simp add: dm Let_def test True)
    from Suc.hyps(2) lt have "n = getTreeHeight s - (L + 1)" by simp
    from Suc.hyps(1) [OF this Suc.prems(1)] lt
    obtain c where c: "cutoff_loop (L + 1) s = Inr c" "L + 1 \<le> c" "c \<le> getTreeHeight s"
      "\<not> cutoff_continues s c" "\<forall>L'. L + 1 \<le> L' \<and> L' < c \<longrightarrow> cutoff_continues s L'"
      by auto
    have "cutoff_continues s L'" if "L \<le> L'" "L' < c" for L'
      using that c(5) True by (cases "L' = L") auto
    with c step show ?thesis by auto
  qed
qed

lemma determineCutoffLevel_spec:
  assumes wf: "wf_sparse s"
  shows "\<exists>c. determineCutoffLevel s
       = Inr (s\<lparr> sparse_start_level := c,
                 positions_dense := positions_dense s @ concat (take c (positions s)),
                 positions_sparse := positions_sparse s @ concat (drop c (positions s)),
                 positions := [] \<rparr>)
     \<and> c \<le> getTreeHeight s \<and> \<not> cutoff_continues s c \<and> (\<forall>L < c. cutoff_continues s L)"
proof -
  from wf have len: "length (node_counts s) = getTreeHeight s"
      "length (positions s) = getTreeHeight s"
    by (simp_all add: wf_sparse_def sparseInv_def lengthsInv_def getTreeHeight_def)
  from cutoff_loop_first_failing [OF len(1), of 0]
  obtain c where c: "cutoff_loop 0 s = Inr c" "c \<le> getTreeHeight s"
    "\<not> cutoff_continues s c" "\<forall>L'. L' < c \<longrightarrow> cutoff_continues s L'"
    by auto
  with len show ?thesis
    by (auto simp: determineCutoffLevel_def Let_def)
qed

text \<open>The term of a level with \<open>2 ^ 23\<close> nodes wraps to 0: with the node counts below,
  ratio 1 and \<open>2 ^ 24\<close> slots at level 4, the dense size up to level 4 is 16847379, not
  4311814675, and the loop goes on at level 4.\<close>

lemma dense_mem_floor_wraps:
  "dense_mem_floor [1, 128, 32768, 8388608, 8388608] 4 = 16847379"
proof -
  have "[0..<4] = [0, 1, 2, 3::nat]" by (simp add: upt_rec)
  then show ?thesis
    by (simp add: dense_mem_floor_def to_position_t_mod)
qed

lemma cutoff_continues_wraps:
  assumes "node_counts s = [1, 128, 32768, 8388608, 8388608]" and "length (labels s) = 5"
    and "length (labels s ! 4) = 16777216" and "sparse_dense_ratio s = 1"
  shows "cutoff_continues s 4"
proof -
  have "[4..<5] = [4::nat]" by (simp add: upt_rec)
  then have "sparse_mem_floor (labels s) 4 = 20971521"
    using assms(2,3) by (simp add: sparse_mem_floor_def to_position_t_mod)
  then show ?thesis
    unfolding cutoff_continues_def getTreeHeight_def assms(1,2,4) dense_mem_floor_wraps
    by simp
qed

section \<open>The result of build\<close>

lemma wf_sparse_FSTBuilder: "wf_sparse (FSTBuilder incl ratio)"
  by (simp add: wf_sparse_def sparseInv_def lengthsInv_def FSTBuilder_def)

lemma buildSparse_wf:
  "(\<exists>s'. buildSparse keys (FSTBuilder incl ratio) = Inr s' \<and> wf_sparse s')
     \<or> buildSparse keys (FSTBuilder incl ratio) = Inl StartLevelPastKey"
  unfolding buildSparse_def by (rule buildSparse_loop_wf) (rule wf_sparse_FSTBuilder)

lemma sparseInv_cong:
  assumes "labels s' = labels s" "child_indicator_bits s' = child_indicator_bits s"
    "louds_bits s' = louds_bits s" "node_counts s' = node_counts s"
    "is_last_item_terminator s' = is_last_item_terminator s"
  shows "sparseInv s' = sparseInv s"
  using assms by (simp add: sparseInv_def lengthsInv_def levelAt_def)

lemma cutoff_continues_cong:
  assumes "labels s' = labels s" "node_counts s' = node_counts s"
    "sparse_dense_ratio s' = sparse_dense_ratio s"
  shows "cutoff_continues s' L = cutoff_continues s L"
  using assms by (simp add: cutoff_continues_def getTreeHeight_def)

text \<open>What a successful build returns: the sparse vectors of the sparse pass, which
  satisfy its invariant, and with the dense layout the cut-off level of the policy.\<close>

lemma build_Inr:
  assumes "build kT keys (FSTBuilder incl ratio) = Inr s"
  shows "sparseInv s"
    and "incl \<Longrightarrow> sparse_start_level s \<le> getTreeHeight s
          \<and> \<not> cutoff_continues s (sparse_start_level s)
          \<and> (\<forall>L < sparse_start_level s. cutoff_continues s L)"
proof -
  from assms obtain s1 where s1: "buildSparse keys (FSTBuilder incl ratio) = Inr s1"
    and rest: "(if include_dense s1 then bindE (determineCutoffLevel s1) (buildDense kT)
                else Inr s1) = Inr s"
    by (auto simp: build_def bindE_eq_Inr split: if_splits)
  from buildSparse_wf [of keys incl ratio] s1 have wf: "wf_sparse s1" by auto
  then have inv1: "sparseInv s1" by (simp add: wf_sparse_def)
  from determineCutoffLevel_spec [OF wf] obtain c s2
    where s2: "determineCutoffLevel s1 = Inr s2"
      and s2_def: "s2 = s1\<lparr> sparse_start_level := c,
                 positions_dense := positions_dense s1 @ concat (take c (positions s1)),
                 positions_sparse := positions_sparse s1 @ concat (drop c (positions s1)),
                 positions := [] \<rparr>"
      and c: "c \<le> getTreeHeight s1" "\<not> cutoff_continues s1 c" "\<forall>L < c. cutoff_continues s1 L"
    by blast
  have inv2: "sparseInv s2 = sparseInv s1"
    by (rule sparseInv_cong) (simp_all add: s2_def)
  have cc2: "cutoff_continues s2 L = cutoff_continues s1 L" for L
    by (rule cutoff_continues_cong) (simp_all add: s2_def)
  show "sparseInv s"
  proof (cases "include_dense s1")
    case False
    with rest inv1 show ?thesis by simp
  next
    case True
    with rest s2 have "buildDense kT s2 = Inr s" by simp
    note f = eraseDense_fields [OF buildDense_frame [OF this]]
    have "sparseInv s = sparseInv s2"
      by (rule sparseInv_cong) (simp_all add: f)
    with inv2 inv1 show ?thesis by simp
  qed
  show "sparse_start_level s \<le> getTreeHeight s
          \<and> \<not> cutoff_continues s (sparse_start_level s)
          \<and> (\<forall>L < sparse_start_level s. cutoff_continues s L)" if incl
  proof -
    from eraseSparse_fields(1) [OF buildSparse_frame [OF s1]] that
    have "include_dense s1" by (simp add: FSTBuilder_def)
    with rest s2 have "buildDense kT s2 = Inr s" by simp
    note f = eraseDense_fields [OF buildDense_frame [OF this]]
    have "cutoff_continues s L = cutoff_continues s2 L" for L
      by (rule cutoff_continues_cong) (simp_all add: f)
    moreover have "sparse_start_level s = c" "getTreeHeight s = getTreeHeight s1"
      by (simp_all add: f s2_def getTreeHeight_def)
    ultimately show ?thesis
      using c cc2 by simp
  qed
qed

section \<open>The dense pass, level by level\<close>

text \<open>The node number the walk of \<^verbatim>\<open>buildDense\<close> holds at slot \<open>p\<close>: the number of set LOUDS
  bits among the slots \<open>1, \<dots>, p\<close>.\<close>

definition slot_node_num :: "word_t list \<Rightarrow> nat \<Rightarrow> nat" where
  "slot_node_num lb p = length (filter (\<lambda>q. readBit lb q = Inr True) [1..<Suc p])"

lemma readBit_True_iff: "readBit bits p = Inr True \<longleftrightarrow> testBit bits p"
  by (auto simp: readBit_conv testBit_def)

lemma slot_node_num_0 [simp]: "slot_node_num lb 0 = 0"
  by (simp add: slot_node_num_def)

lemma slot_node_num_Suc:
  "slot_node_num lb (Suc p) = slot_node_num lb p + (if testBit lb (Suc p) then 1 else 0)"
  by (simp add: slot_node_num_def readBit_True_iff)

lemma slot_node_num_less:
  assumes b0: "testBit lb 0"
  shows "slot_node_num lb p < popcountBits lb"
proof -
  let ?A = "{q. 1 \<le> q \<and> q \<le> p \<and> testBit lb q}"
  have "slot_node_num lb p = card (set (filter (testBit lb) [1..<Suc p]))"
    unfolding slot_node_num_def readBit_True_iff
    by (rule distinct_card [symmetric]) simp
  also have "set (filter (testBit lb) [1..<Suc p]) = ?A" by auto
  finally have eq: "slot_node_num lb p = card ?A" .
  have "?A \<subset> {q. testBit lb q}" using b0 by auto
  then have "card ?A < card {q. testBit lb q}"
    by (rule psubset_card_mono [OF finite_testBit])
  with eq show ?thesis by (simp add: popcountBits_card)
qed

lemma testBit_replicate_zero [simp]: "\<not> testBit (replicate k 0) q"
  by (simp add: testBit_def)

text \<open>The state of the dense pass while it works on a level: the dense vectors of the
  levels above, and the three vectors of the level itself.\<close>

definition denseSt :: "builder \<Rightarrow> word_t list \<Rightarrow> word_t list \<Rightarrow> word_t list \<Rightarrow> builder" where
  "denseSt s BL BC PK =
     s\<lparr> bitmap_labels := bitmap_labels s @ [BL],
        bitmap_child_indicator_bits := bitmap_child_indicator_bits s @ [BC],
        prefixkey_indicator_bits := prefixkey_indicator_bits s @ [PK] \<rparr>"

definition denseLens :: "builder \<Rightarrow> nat \<Rightarrow> bool" where
  "denseLens s level \<longleftrightarrow> length (bitmap_labels s) = level
     \<and> length (bitmap_child_indicator_bits s) = level
     \<and> length (prefixkey_indicator_bits s) = level"

lemma initDenseVectors_node_denseSt:
  assumes "denseLens s level"
  shows "initDenseVectors_node level n (denseSt s BL BC PK)
     = Inr (denseSt s (BL @ replicate 4 0) (BC @ replicate 4 0)
              (if n mod 64 = 0 then PK @ [0] else PK))"
  using assms
  by (simp add: initDenseVectors_node_def denseSt_def denseLens_def kFanout_def kWordSize_def
      snoc_update_last snoc_nth_last)

lemma initDenseVectors_fold_denseSt:
  assumes "denseLens s level"
  shows "\<exists>k. fold (\<lambda>nc r. bindE r (initDenseVectors_node level nc)) [0..<n]
              (Inr (denseSt s [] [] []))
           = Inr (denseSt s (replicate (4 * n) 0) (replicate (4 * n) 0) (replicate k 0))
         \<and> n \<le> 64 * k"
proof (induction n)
  case 0
  show ?case by (rule exI [of _ 0]) simp
next
  case (Suc n)
  then obtain k where k: "fold (\<lambda>nc r. bindE r (initDenseVectors_node level nc)) [0..<n]
              (Inr (denseSt s [] [] []))
           = Inr (denseSt s (replicate (4 * n) 0) (replicate (4 * n) 0) (replicate k 0))"
      and nk: "n \<le> 64 * k"
    by blast
  have r4: "replicate (4 * n) (0::word_t) @ replicate 4 0 = replicate (4 * Suc n) 0"
    by (simp add: replicate_add [symmetric] del: replicate_Suc)
  show ?case
  proof (cases "n mod 64 = 0")
    case True
    have "replicate k (0::word_t) @ [0] = replicate (Suc k) 0"
      by (simp add: replicate_append_same)
    with k True r4 have "fold (\<lambda>nc r. bindE r (initDenseVectors_node level nc)) [0..<Suc n]
              (Inr (denseSt s [] [] []))
           = Inr (denseSt s (replicate (4 * Suc n) 0) (replicate (4 * Suc n) 0)
                   (replicate (Suc k) 0))"
      by (simp add: initDenseVectors_node_denseSt [OF assms])
    moreover from nk have "Suc n \<le> 64 * Suc k" by simp
    ultimately show ?thesis by blast
  next
    case False
    with k r4 have "fold (\<lambda>nc r. bindE r (initDenseVectors_node level nc)) [0..<Suc n]
              (Inr (denseSt s [] [] []))
           = Inr (denseSt s (replicate (4 * Suc n) 0) (replicate (4 * Suc n) 0)
                   (replicate k 0))"
      by (simp add: initDenseVectors_node_denseSt [OF assms])
    moreover from False have "n \<noteq> 64 * k" by auto
    with nk have "Suc n \<le> 64 * k" by simp
    ultimately show ?thesis by blast
  qed
qed

lemma initDenseVectors_denseSt:
  assumes "denseLens s level" and "level < length (node_counts s)"
  shows "\<exists>k. initDenseVectors level s
           = Inr (denseSt s (replicate (4 * (node_counts s ! level)) 0)
                    (replicate (4 * (node_counts s ! level)) 0) (replicate k 0))
         \<and> node_counts s ! level \<le> 64 * k"
proof -
  have "initDenseVectors level s
      = fold (\<lambda>nc r. bindE r (initDenseVectors_node level nc)) [0..<node_counts s ! level]
          (Inr (denseSt s [] [] []))"
    using assms(2) by (simp add: initDenseVectors_def Let_def denseSt_def)
  with initDenseVectors_fold_denseSt [OF assms(1), of "node_counts s ! level"]
  show ?thesis by simp
qed


lemma setBit_testBit:
  assumes "pos < length bits * 64"
  shows "\<exists>bits'. setBit bits pos = Inr bits' \<and> length bits' = length bits
     \<and> (\<forall>q. testBit bits' q \<longleftrightarrow> q = pos \<or> testBit bits q)"
  using assms by (simp add: setBit_conv testBit_update)

lemma isStartOfNode_denseSt:
  assumes "level < length (louds_bits s)" "pos < length (louds_bits s ! level) * 64"
  shows "isStartOfNode level pos (denseSt s BL BC PK) = Inr (testBit (louds_bits s ! level) pos)"
  using assms by (simp add: isStartOfNode_def denseSt_def readBit_conv)

lemma isTerminator_denseSt:
  assumes "level < length (labels s)" "pos < length (labels s ! level)"
    "level < length (child_indicator_bits s)" "pos < length (child_indicator_bits s ! level) * 64"
  shows "isTerminator kT level pos (denseSt s BL BC PK)
     = Inr (labels s ! level ! pos = kT \<and> \<not> testBit (child_indicator_bits s ! level) pos)"
  using assms by (simp add: isTerminator_def denseSt_def readBit_conv)

lemma setPrefixkeyIndicator_denseSt:
  assumes "denseLens s level" "n < length PK * 64"
  shows "\<exists>PK'. setPrefixkeyIndicator level n (denseSt s BL BC PK) = Inr (denseSt s BL BC PK')
     \<and> length PK' = length PK \<and> (\<forall>q. testBit PK' q \<longleftrightarrow> q = n \<or> testBit PK q)"
proof -
  from setBit_testBit [OF assms(2)] obtain PK' where PK': "setBit PK n = Inr PK'"
    "length PK' = length PK" "\<forall>q. testBit PK' q \<longleftrightarrow> q = n \<or> testBit PK q"
    by blast
  from assms(1) PK'(1)
  have "setPrefixkeyIndicator level n (denseSt s BL BC PK) = Inr (denseSt s BL BC PK')"
    by (simp add: setPrefixkeyIndicator_def denseSt_def denseLens_def
        snoc_update_last snoc_nth_last)
  with PK'(2,3) show ?thesis by blast
qed

lemma setLabelAndChildIndicatorBitmap_denseSt:
  assumes lens: "denseLens s level"
    and lv: "level < length (labels s)" "pos < length (labels s ! level)"
      "level < length (child_indicator_bits s)"
      "pos < length (child_indicator_bits s ! level) * 64"
    and cap: "n * 256 + of_char (labels s ! level ! pos) < length BL * 64"
      "length BC = length BL"
  shows "\<exists>BL' BC'. setLabelAndChildIndicatorBitmap level n pos (denseSt s BL BC PK)
         = Inr (denseSt s BL' BC' PK)
     \<and> length BL' = length BL \<and> length BC' = length BC
     \<and> (\<forall>q. testBit BL' q \<longleftrightarrow> q = n * 256 + of_char (labels s ! level ! pos) \<or> testBit BL q)
     \<and> (\<forall>q. testBit BC' q \<longleftrightarrow>
            (testBit (child_indicator_bits s ! level) pos
               \<and> q = n * 256 + of_char (labels s ! level ! pos)) \<or> testBit BC q)"
proof -
  let ?q = "n * 256 + of_char (labels s ! level ! pos)"
  from setBit_testBit [OF cap(1)] obtain BL' where BL': "setBit BL ?q = Inr BL'"
    "length BL' = length BL" "\<forall>q. testBit BL' q \<longleftrightarrow> q = ?q \<or> testBit BL q"
    by blast
  from cap have "?q < length BC * 64" by simp
  from setBit_testBit [OF this] obtain BC1 where BC1: "setBit BC ?q = Inr BC1"
    "length BC1 = length BC" "\<forall>q. testBit BC1 q \<longleftrightarrow> q = ?q \<or> testBit BC q"
    by blast
  define BC' where "BC' = (if testBit (child_indicator_bits s ! level) pos then BC1 else BC)"
  from lens lv BL'(1) BC1(1)
  have "setLabelAndChildIndicatorBitmap level n pos (denseSt s BL BC PK)
         = Inr (denseSt s BL' BC' PK)"
    by (simp add: setLabelAndChildIndicatorBitmap_def denseSt_def denseLens_def Let_def
        kFanout_def readBit_conv snoc_update_last snoc_nth_last BC'_def)
  moreover have "length BC' = length BC" by (simp add: BC'_def BC1(2))
  moreover have "\<forall>q. testBit BC' q \<longleftrightarrow>
            (testBit (child_indicator_bits s ! level) pos \<and> q = ?q) \<or> testBit BC q"
    by (simp add: BC'_def BC1(3))
  ultimately show ?thesis using BL'(2,3) by blast
qed


text \<open>A slot that the dense pass records as a prefix key: a node start that carries the
  terminator label and has its child indicator clear.\<close>

definition slot_is_prefixkey ::
  "label_t \<Rightarrow> label_t list \<Rightarrow> word_t list \<Rightarrow> word_t list \<Rightarrow> nat \<Rightarrow> bool" where
  "slot_is_prefixkey kT ls cb lb p \<longleftrightarrow>
     readBit lb p = Inr True \<and> ls ! p = kT \<and> readBit cb p = Inr False"

text \<open>The position of a slot in the bitmaps of its level.\<close>

definition slot_bit :: "label_t list \<Rightarrow> word_t list \<Rightarrow> nat \<Rightarrow> nat" where
  "slot_bit ls lb p = slot_node_num lb p * kFanout + of_char (ls ! p)"

text \<open>The bits that the slots \<open>a \<le> p < b\<close> of a level add to its three dense vectors.\<close>

definition dense_slots_added ::
  "label_t \<Rightarrow> label_t list \<Rightarrow> word_t list \<Rightarrow> word_t list \<Rightarrow> nat \<Rightarrow> nat
     \<Rightarrow> word_t list \<times> word_t list \<times> word_t list
     \<Rightarrow> word_t list \<times> word_t list \<times> word_t list \<Rightarrow> bool" where
  "dense_slots_added kT ls cb lb a b old new \<longleftrightarrow>
     (case old of (BL, BC, PK) \<Rightarrow> case new of (BL', BC', PK') \<Rightarrow>
        length BL' = length BL \<and> length BC' = length BC \<and> length PK' = length PK
      \<and> (\<forall>n. testBit PK' n \<longleftrightarrow> testBit PK n
             \<or> (\<exists>p. a \<le> p \<and> p < b \<and> slot_is_prefixkey kT ls cb lb p
                     \<and> n = slot_node_num lb p))
      \<and> (\<forall>q. testBit BL' q \<longleftrightarrow> testBit BL q
             \<or> (\<exists>p. a \<le> p \<and> p < b \<and> \<not> slot_is_prefixkey kT ls cb lb p
                     \<and> q = slot_bit ls lb p))
      \<and> (\<forall>q. testBit BC' q \<longleftrightarrow> testBit BC q
             \<or> (\<exists>p. a \<le> p \<and> p < b \<and> \<not> slot_is_prefixkey kT ls cb lb p
                     \<and> readBit cb p = Inr True \<and> q = slot_bit ls lb p)))"

lemma dense_slots_added_refl: "dense_slots_added kT ls cb lb a a old old"
  by (cases old) (auto simp: dense_slots_added_def)

lemma range_added_trans:
  fixes a b c :: nat
  assumes 1: "\<forall>n. T1 n \<longleftrightarrow> T0 n \<or> (\<exists>p. a \<le> p \<and> p < b \<and> P p n)"
    and 2: "\<forall>n. T2 n \<longleftrightarrow> T1 n \<or> (\<exists>p. b \<le> p \<and> p < c \<and> P p n)"
    and ab: "a \<le> b" and bc: "b \<le> c"
  shows "\<forall>n. T2 n \<longleftrightarrow> T0 n \<or> (\<exists>p. a \<le> p \<and> p < c \<and> P p n)"
proof
  fix n
  have "(\<exists>p. a \<le> p \<and> p < c \<and> P p n)
      \<longleftrightarrow> (\<exists>p. a \<le> p \<and> p < b \<and> P p n) \<or> (\<exists>p. b \<le> p \<and> p < c \<and> P p n)"
  proof
    assume "\<exists>p. a \<le> p \<and> p < c \<and> P p n"
    then obtain p where p: "a \<le> p" "p < c" "P p n" by blast
    show "(\<exists>p. a \<le> p \<and> p < b \<and> P p n) \<or> (\<exists>p. b \<le> p \<and> p < c \<and> P p n)"
    proof (cases "p < b")
      case True
      with p show ?thesis by blast
    next
      case False
      then have "b \<le> p" by simp
      with p show ?thesis by blast
    qed
  next
    assume "(\<exists>p. a \<le> p \<and> p < b \<and> P p n) \<or> (\<exists>p. b \<le> p \<and> p < c \<and> P p n)"
    then show "\<exists>p. a \<le> p \<and> p < c \<and> P p n"
    proof
      assume "\<exists>p. a \<le> p \<and> p < b \<and> P p n"
      then obtain p where "a \<le> p" "p < b" "P p n" by blast
      with bc have "a \<le> p \<and> p < c \<and> P p n" by simp
      then show ?thesis ..
    next
      assume "\<exists>p. b \<le> p \<and> p < c \<and> P p n"
      then obtain p where "b \<le> p" "p < c" "P p n" by blast
      with ab have "a \<le> p \<and> p < c \<and> P p n" by simp
      then show ?thesis ..
    qed
  qed
  with 1 2 show "T2 n \<longleftrightarrow> T0 n \<or> (\<exists>p. a \<le> p \<and> p < c \<and> P p n)"
    by blast
qed

lemma dense_slots_added_trans:
  assumes "dense_slots_added kT ls cb lb a b old mid" "dense_slots_added kT ls cb lb b c mid new"
    and ab: "a \<le> b" and bc: "b \<le> c"
  shows "dense_slots_added kT ls cb lb a c old new"
proof -
  obtain BL BC PK where old: "old = (BL, BC, PK)" by (cases old)
  obtain BL1 BC1 PK1 where mid: "mid = (BL1, BC1, PK1)" by (cases mid)
  obtain BL2 BC2 PK2 where new: "new = (BL2, BC2, PK2)" by (cases new)
  from assms(1) have m: "length BL1 = length BL" "length BC1 = length BC" "length PK1 = length PK"
    and m1: "\<forall>n. testBit PK1 n \<longleftrightarrow> testBit PK n
             \<or> (\<exists>p. a \<le> p \<and> p < b \<and> slot_is_prefixkey kT ls cb lb p
                     \<and> n = slot_node_num lb p)"
    and m2: "\<forall>q. testBit BL1 q \<longleftrightarrow> testBit BL q
             \<or> (\<exists>p. a \<le> p \<and> p < b \<and> \<not> slot_is_prefixkey kT ls cb lb p
                     \<and> q = slot_bit ls lb p)"
    and m3: "\<forall>q. testBit BC1 q \<longleftrightarrow> testBit BC q
             \<or> (\<exists>p. a \<le> p \<and> p < b \<and> \<not> slot_is_prefixkey kT ls cb lb p
                     \<and> readBit cb p = Inr True \<and> q = slot_bit ls lb p)"
    by (simp_all add: dense_slots_added_def old mid)
  from assms(2) have n: "length BL2 = length BL1" "length BC2 = length BC1" "length PK2 = length PK1"
    and n1: "\<forall>n. testBit PK2 n \<longleftrightarrow> testBit PK1 n
             \<or> (\<exists>p. b \<le> p \<and> p < c \<and> slot_is_prefixkey kT ls cb lb p
                     \<and> n = slot_node_num lb p)"
    and n2: "\<forall>q. testBit BL2 q \<longleftrightarrow> testBit BL1 q
             \<or> (\<exists>p. b \<le> p \<and> p < c \<and> \<not> slot_is_prefixkey kT ls cb lb p
                     \<and> q = slot_bit ls lb p)"
    and n3: "\<forall>q. testBit BC2 q \<longleftrightarrow> testBit BC1 q
             \<or> (\<exists>p. b \<le> p \<and> p < c \<and> \<not> slot_is_prefixkey kT ls cb lb p
                     \<and> readBit cb p = Inr True \<and> q = slot_bit ls lb p)"
    by (simp_all add: dense_slots_added_def mid new)
  note r1 = range_added_trans [OF m1 n1 ab bc]
  note r2 = range_added_trans [OF m2 n2 ab bc]
  note r3 = range_added_trans [OF m3 n3 ab bc]
  from m n r1 r2 r3 show ?thesis
    by (simp add: dense_slots_added_def old new)
qed


definition denseReady :: "builder \<Rightarrow> nat \<Rightarrow> bool" where
  "denseReady s level \<longleftrightarrow> sparseInv s \<and> level < length (labels s) \<and> denseLens s level"

lemma denseReady_level:
  assumes "denseReady s level"
  shows "level < length (child_indicator_bits s)" "level < length (louds_bits s)"
    "level < length (node_counts s)"
    "labels s ! level \<noteq> []"
    "length (child_indicator_bits s ! level) = length (labels s ! level) div 64 + 1"
    "length (louds_bits s ! level) = length (labels s ! level) div 64 + 1"
    "popcountBits (louds_bits s ! level) = node_counts s ! level"
    "testBit (louds_bits s ! level) 0"
  using assms
  by (auto simp: denseReady_def sparseInv_def lengthsInv_def levelAt_def levelInv_def
      levelPre_def)

lemma only_slot: "(\<exists>p. pos \<le> p \<and> p < Suc pos \<and> Q p) \<longleftrightarrow> Q pos"
  by (auto simp: less_Suc_eq_le)

lemma buildDense_slot_denseSt:
  fixes s :: builder and level :: nat
  defines "ls \<equiv> labels s ! level" and "cb \<equiv> child_indicator_bits s ! level"
    and "lb \<equiv> louds_bits s ! level" and "nc \<equiv> node_counts s ! level"
  assumes ready: "denseReady s level"
    and pos: "0 < pos" "pos < length ls"
    and nn: "node_num = slot_node_num lb (pos - 1)"
    and caps: "length BL = 4 * nc" "length BC = 4 * nc" "nc \<le> 64 * length PK"
  shows "\<exists>BL' BC' PK'. buildDense_slot kT level node_num pos (denseSt s BL BC PK)
         = Inr (slot_node_num lb pos, denseSt s BL' BC' PK')
     \<and> dense_slots_added kT ls cb lb pos (Suc pos) (BL, BC, PK) (BL', BC', PK')"
proof -
  note lv = denseReady_level [OF ready, folded ls_def cb_def lb_def nc_def]
  from ready have lens: "denseLens s level" and lvl: "level < length (labels s)"
    by (simp_all add: denseReady_def)
  from pos lv(5,6) have inr: "pos < length cb * 64" "pos < length lb * 64" by simp_all
  let ?start = "testBit lb pos"
  let ?nn = "slot_node_num lb pos"
  from pos(1) have "pos = Suc (pos - 1)" by simp
  then have "?nn = slot_node_num lb (pos - 1) + (if ?start then 1 else 0)"
    by (metis slot_node_num_Suc)
  with nn have nn': "?nn = (if ?start then node_num + 1 else node_num)" by simp
  have lt: "?nn < nc" using slot_node_num_less [OF lv(8)] lv(7) by simp
  then have "Suc ?nn * 256 \<le> nc * 256"
    by (intro mult_le_mono1) simp
  then have "?nn * 256 + 256 \<le> nc * 256" by simp
  moreover have "of_char (ls ! pos) < (256::nat)" by simp
  ultimately have "?nn * 256 + of_char (ls ! pos) < nc * 256" by linarith
  with lt caps have cap: "?nn * 256 + of_char (ls ! pos) < length BL * 64" "?nn < length PK * 64"
    by simp_all
  have pk: "slot_is_prefixkey kT ls cb lb pos \<longleftrightarrow> ?start \<and> ls ! pos = kT \<and> \<not> testBit cb pos"
    using inr by (auto simp: slot_is_prefixkey_def readBit_conv)
  have start: "isStartOfNode level pos (denseSt s BL BC PK) = Inr ?start"
    using isStartOfNode_denseSt [OF lv(2), of pos BL BC PK] inr by (simp add: lb_def)
  have is_t: "isTerminator kT level pos (denseSt s BL BC PK)
      = Inr (ls ! pos = kT \<and> \<not> testBit cb pos)"
    using isTerminator_denseSt [OF lvl _ lv(1), of pos kT BL BC PK] pos inr
    by (simp add: ls_def cb_def)
  show ?thesis
  proof (cases "slot_is_prefixkey kT ls cb lb pos")
    case True
    from setPrefixkeyIndicator_denseSt [OF lens cap(2), of BL BC]
    obtain PK' where PK': "setPrefixkeyIndicator level ?nn (denseSt s BL BC PK)
          = Inr (denseSt s BL BC PK')"
        "length PK' = length PK" "\<forall>q. testBit PK' q \<longleftrightarrow> q = ?nn \<or> testBit PK q"
      by blast
    from True pk nn' PK'(1)
    have run: "buildDense_slot kT level node_num pos (denseSt s BL BC PK)
        = Inr (?nn, denseSt s BL BC PK')"
      by (simp add: buildDense_slot_def Let_def start is_t)
    have "dense_slots_added kT ls cb lb pos (Suc pos) (BL, BC, PK) (BL, BC, PK')"
      using True PK'(2,3) by (auto simp: dense_slots_added_def only_slot)
    with run show ?thesis by blast
  next
    case False
    from setLabelAndChildIndicatorBitmap_denseSt [OF lens lvl _ lv(1), of pos ?nn BL BC PK]
      pos(2) inr(1) cap(1) caps(1,2)
    obtain BL' BC' where set: "setLabelAndChildIndicatorBitmap level ?nn pos (denseSt s BL BC PK)
         = Inr (denseSt s BL' BC' PK)"
      "length BL' = length BL" "length BC' = length BC"
      "\<forall>q. testBit BL' q \<longleftrightarrow> q = ?nn * 256 + of_char (ls ! pos) \<or> testBit BL q"
      "\<forall>q. testBit BC' q \<longleftrightarrow> (testBit cb pos \<and> q = ?nn * 256 + of_char (ls ! pos)) \<or> testBit BC q"
      unfolding ls_def cb_def by auto
    from False pk nn' set(1)
    have run: "buildDense_slot kT level node_num pos (denseSt s BL BC PK)
        = Inr (?nn, denseSt s BL' BC' PK)"
      by (auto simp: buildDense_slot_def Let_def start is_t)
    have "readBit cb pos = Inr True \<longleftrightarrow> testBit cb pos"
      by (rule readBit_True_iff)
    then have "dense_slots_added kT ls cb lb pos (Suc pos) (BL, BC, PK) (BL', BC', PK)"
      using False set(2-5)
      by (auto simp: dense_slots_added_def only_slot slot_bit_def kFanout_def)
    with run show ?thesis by blast
  qed
qed


lemma getNumItems_denseSt:
  "level < length (labels s) \<Longrightarrow>
     getNumItems (denseSt s BL BC PK) level = Inr (length (labels s ! level))"
  by (simp add: denseSt_def)

lemma buildDense_slots_denseSt:
  assumes ready: "denseReady s level"
    and ls: "ls = labels s ! level" and cb: "cb = child_indicator_bits s ! level"
    and lb: "lb = louds_bits s ! level" and nc: "nc = node_counts s ! level"
    and pos: "0 < pos" "pos \<le> length ls"
    and nn: "node_num = slot_node_num lb (pos - 1)"
    and caps: "length BL = 4 * nc" "length BC = 4 * nc" "nc \<le> 64 * length PK"
  shows "\<exists>BL' BC' PK'. buildDense_slots kT level node_num pos (denseSt s BL BC PK)
         = Inr (denseSt s BL' BC' PK')
     \<and> dense_slots_added kT ls cb lb pos (length ls) (BL, BC, PK) (BL', BC', PK')"
  using pos nn caps
proof (induction "length ls - pos" arbitrary: pos node_num BL BC PK)
  case 0
  then have "pos = length ls" by simp
  moreover from ready have "level < length (labels s)" by (simp add: denseReady_def)
  ultimately have "buildDense_slots kT level node_num pos (denseSt s BL BC PK)
      = Inr (denseSt s BL BC PK)"
    by (subst buildDense_slots.simps) (simp add: getNumItems_denseSt ls)
  with dense_slots_added_refl [of kT ls cb lb pos "(BL, BC, PK)"] \<open>pos = length ls\<close>
  show ?case by auto
next
  case (Suc n)
  then have lt: "pos < length ls" by simp
  from ready have lvl: "level < length (labels s)" by (simp add: denseReady_def)
  from buildDense_slot_denseSt [OF ready Suc.prems(1) lt [unfolded ls]
      Suc.prems(3) [unfolded lb] Suc.prems(4,5,6) [unfolded nc], of kT]
  obtain BL1 BC1 PK1
    where slot: "buildDense_slot kT level node_num pos (denseSt s BL BC PK)
         = Inr (slot_node_num lb pos, denseSt s BL1 BC1 PK1)"
      and add1: "dense_slots_added kT ls cb lb pos (Suc pos) (BL, BC, PK) (BL1, BC1, PK1)"
    unfolding ls cb lb by blast
  from add1 have len1: "length BL1 = length BL" "length BC1 = length BC" "length PK1 = length PK"
    by (simp_all add: dense_slots_added_def)
  from Suc.hyps(2) have "n = length ls - (pos + 1)" by simp
  from Suc.hyps(1) [OF this, of "slot_node_num lb pos" BL1 BC1 PK1] lt len1 Suc.prems(4,5,6)
  obtain BL' BC' PK'
    where rest: "buildDense_slots kT level (slot_node_num lb pos) (pos + 1) (denseSt s BL1 BC1 PK1)
         = Inr (denseSt s BL' BC' PK')"
      and add2: "dense_slots_added kT ls cb lb (pos + 1) (length ls) (BL1, BC1, PK1) (BL', BC', PK')"
    by auto
  have "buildDense_slots kT level node_num pos (denseSt s BL BC PK) = Inr (denseSt s BL' BC' PK')"
    using lt lvl slot rest
    by (subst buildDense_slots.simps) (simp add: getNumItems_denseSt ls)
  moreover have "dense_slots_added kT ls cb lb pos (length ls) (BL, BC, PK) (BL', BC', PK')"
    using dense_slots_added_trans [OF add1 _, of "length ls" "(BL', BC', PK')"] add2 lt
    by simp
  ultimately show ?case by blast
qed


text \<open>
  The dense vectors \<open>BL\<close> (\<^verbatim>\<open>bitmap_labels_[L]\<close>), \<open>BC\<close>
  (\<^verbatim>\<open>bitmap_child_indicator_bits_[L]\<close>) and \<open>PK\<close> (\<^verbatim>\<open>prefixkey_indicator_bits_[L]\<close>) of a level
  hold exactly the bits of its sparse slots: a prefix-key slot sets the bit of its node in
  \<open>PK\<close> and nothing else; every other slot sets its bit in \<open>BL\<close>, and in \<open>BC\<close> if and
  only if its sparse child indicator is set.
\<close>

definition dense_level_of ::
  "label_t \<Rightarrow> label_t list \<Rightarrow> word_t list \<Rightarrow> word_t list
     \<Rightarrow> word_t list \<Rightarrow> word_t list \<Rightarrow> word_t list \<Rightarrow> bool" where
  "dense_level_of kT ls cb lb BL BC PK \<longleftrightarrow>
     (\<forall>n. readBit PK n = Inr True \<longleftrightarrow>
          (\<exists>p < length ls. slot_is_prefixkey kT ls cb lb p \<and> n = slot_node_num lb p))
   \<and> (\<forall>q. readBit BL q = Inr True \<longleftrightarrow>
          (\<exists>p < length ls. \<not> slot_is_prefixkey kT ls cb lb p \<and> q = slot_bit ls lb p))
   \<and> (\<forall>q. readBit BC q = Inr True \<longleftrightarrow>
          (\<exists>p < length ls. \<not> slot_is_prefixkey kT ls cb lb p
                 \<and> readBit cb p = Inr True \<and> q = slot_bit ls lb p))"

definition dense_level_at :: "label_t \<Rightarrow> builder \<Rightarrow> nat \<Rightarrow> bool" where
  "dense_level_at kT s L \<longleftrightarrow>
     dense_level_of kT (labels s ! L) (child_indicator_bits s ! L) (louds_bits s ! L)
       (bitmap_labels s ! L) (bitmap_child_indicator_bits s ! L)
       (prefixkey_indicator_bits s ! L)"

lemma dense_slots_added_from_zero:
  assumes "dense_slots_added kT ls cb lb 0 (length ls)
      (replicate i 0, replicate j 0, replicate k 0) (BL, BC, PK)"
  shows "dense_level_of kT ls cb lb BL BC PK"
  using assms
  by (simp add: dense_slots_added_def dense_level_of_def readBit_True_iff)

lemma buildDense_level_denseSt:
  assumes ready: "denseReady s level"
  shows "\<exists>BL BC PK. buildDense_level kT level s = Inr (denseSt s BL BC PK)
     \<and> dense_level_of kT (labels s ! level) (child_indicator_bits s ! level)
          (louds_bits s ! level) BL BC PK"
proof -
  define ls cb lb nc where defs: "ls = labels s ! level" "cb = child_indicator_bits s ! level"
    "lb = louds_bits s ! level" "nc = node_counts s ! level"
  note lv = denseReady_level [OF ready, folded defs]
  from ready have lens: "denseLens s level" and lvl: "level < length (labels s)"
    by (simp_all add: denseReady_def)
  from initDenseVectors_denseSt [OF lens denseReady_level(3) [OF ready]]
  obtain k where init: "initDenseVectors level s
        = Inr (denseSt s (replicate (4 * nc) 0) (replicate (4 * nc) 0) (replicate k 0))"
      and k: "nc \<le> 64 * k"
    unfolding defs by blast
  let ?Z = "replicate (4 * nc) (0::word_t)"
  let ?K = "replicate k (0::word_t)"
  from lv(4) have N: "0 < length ls" by simp
  with lv(5) have inr0: "0 < length cb * 64" by simp
  have nc0: "0 < nc" using slot_node_num_less [OF lv(8), of 0] lv(7) by simp
  from lv(6) have inr0': "0 < length lb * 64" by simp
  have pk0: "slot_is_prefixkey kT ls cb lb 0 \<longleftrightarrow> ls ! 0 = kT \<and> \<not> testBit cb 0"
    using inr0 inr0' lv(8) by (simp add: slot_is_prefixkey_def readBit_conv)
  have "isTerminator kT level 0 (denseSt s ?Z ?Z ?K)
      = Inr (ls ! 0 = kT \<and> \<not> testBit cb 0)"
    using isTerminator_denseSt [OF lvl _ lv(1), of 0 kT ?Z ?Z ?K] N inr0 lv(1)
    by (simp add: defs)
  then have is_t: "isTerminator kT level 0 (denseSt s ?Z ?Z ?K)
      = Inr (slot_is_prefixkey kT ls cb lb 0)"
    by (simp only: pk0)
  have "\<exists>BL1 BC1 PK1.
      (if slot_is_prefixkey kT ls cb lb 0 then setPrefixkeyIndicator level 0 (denseSt s ?Z ?Z ?K)
       else setLabelAndChildIndicatorBitmap level 0 0 (denseSt s ?Z ?Z ?K))
        = Inr (denseSt s BL1 BC1 PK1)
      \<and> dense_slots_added kT ls cb lb 0 (Suc 0) (?Z, ?Z, ?K) (BL1, BC1, PK1)"
  proof (cases "slot_is_prefixkey kT ls cb lb 0")
    case True
    from nc0 k have "0 < length ?K * 64" by simp
    from setPrefixkeyIndicator_denseSt [OF lens this, of ?Z ?Z]
    obtain PK' where PK': "setPrefixkeyIndicator level 0 (denseSt s ?Z ?Z ?K)
          = Inr (denseSt s ?Z ?Z PK')"
        "length PK' = length ?K" "\<forall>q. testBit PK' q \<longleftrightarrow> q = 0 \<or> testBit ?K q"
      by blast
    have "dense_slots_added kT ls cb lb 0 (Suc 0) (?Z, ?Z, ?K) (?Z, ?Z, PK')"
      using True PK'(2,3) by (auto simp: dense_slots_added_def only_slot)
    with True PK'(1) show ?thesis by auto
  next
    case False
    have "of_char (ls ! 0) < (256::nat)" by simp
    moreover from nc0 have "256 \<le> 256 * nc" by simp
    ultimately have "of_char (ls ! 0) < 256 * nc" by linarith
    then have "0 * 256 + of_char (ls ! 0) < length ?Z * 64" by simp
    from setLabelAndChildIndicatorBitmap_denseSt [OF lens lvl _ lv(1) _
        this [unfolded defs], of ?Z ?K] N inr0
    obtain BL' BC' where set: "setLabelAndChildIndicatorBitmap level 0 0 (denseSt s ?Z ?Z ?K)
         = Inr (denseSt s BL' BC' ?K)"
      "length BL' = length ?Z" "length BC' = length ?Z"
      "\<forall>q. testBit BL' q \<longleftrightarrow> q = 0 * 256 + of_char (ls ! 0) \<or> testBit ?Z q"
      "\<forall>q. testBit BC' q \<longleftrightarrow> (testBit cb 0 \<and> q = 0 * 256 + of_char (ls ! 0)) \<or> testBit ?Z q"
      unfolding defs by auto
    have "readBit cb 0 = Inr True \<longleftrightarrow> testBit cb 0"
      by (rule readBit_True_iff)
    then have "dense_slots_added kT ls cb lb 0 (Suc 0) (?Z, ?Z, ?K) (BL', BC', ?K)"
      using False set(2-5)
      by (auto simp: dense_slots_added_def only_slot slot_bit_def kFanout_def)
    with False set(1) show ?thesis by auto
  qed
  then obtain BL1 BC1 PK1
    where first: "(if slot_is_prefixkey kT ls cb lb 0
          then setPrefixkeyIndicator level 0 (denseSt s ?Z ?Z ?K)
          else setLabelAndChildIndicatorBitmap level 0 0 (denseSt s ?Z ?Z ?K))
        = Inr (denseSt s BL1 BC1 PK1)"
      and add1: "dense_slots_added kT ls cb lb 0 (Suc 0) (?Z, ?Z, ?K) (BL1, BC1, PK1)"
    by blast
  from add1 have len1: "length BL1 = 4 * nc" "length BC1 = 4 * nc" "length PK1 = k"
    by (simp_all add: dense_slots_added_def)
  from buildDense_slots_denseSt [OF ready defs, of 1 0 BL1 BC1 PK1 kT] N len1 k
  obtain BL BC PK
    where rest: "buildDense_slots kT level 0 1 (denseSt s BL1 BC1 PK1) = Inr (denseSt s BL BC PK)"
      and add2: "dense_slots_added kT ls cb lb 1 (length ls) (BL1, BC1, PK1) (BL, BC, PK)"
    by auto
  have "buildDense_level kT level s = Inr (denseSt s BL BC PK)"
    using N lvl first rest init is_t
    unfolding buildDense_level_def Let_def defs
    by (simp add: getNumItems_denseSt)
  moreover have "dense_slots_added kT ls cb lb 0 (length ls) (?Z, ?Z, ?K) (BL, BC, PK)"
    using dense_slots_added_trans [OF add1 _, of "length ls" "(BL, BC, PK)"] add2 N
    by simp
  then have "dense_level_of kT ls cb lb BL BC PK"
    by (rule dense_slots_added_from_zero)
  ultimately show ?thesis unfolding defs by blast
qed

lemma denseSt_fields:
  "eraseDense (denseSt s BL BC PK) = eraseDense s"
  "bitmap_labels (denseSt s BL BC PK) = bitmap_labels s @ [BL]"
  "bitmap_child_indicator_bits (denseSt s BL BC PK) = bitmap_child_indicator_bits s @ [BC]"
  "prefixkey_indicator_bits (denseSt s BL BC PK) = prefixkey_indicator_bits s @ [PK]"
  by (simp_all add: denseSt_def eraseDense_def)

lemma buildDense_fold_denseSt:
  assumes inv: "sparseInv s" and n: "n \<le> length (labels s)" and lens: "denseLens s 0"
  shows "\<exists>s'. fold (\<lambda>level r. bindE r (buildDense_level kT level)) [0..<n] (Inr s) = Inr s'
     \<and> eraseDense s' = eraseDense s \<and> denseLens s' n \<and> (\<forall>L < n. dense_level_at kT s' L)"
  using n
proof (induction n)
  case 0
  with lens show ?case by simp
next
  case (Suc n)
  then obtain s1
    where s1: "fold (\<lambda>level r. bindE r (buildDense_level kT level)) [0..<n] (Inr s) = Inr s1"
      and fr: "eraseDense s1 = eraseDense s" and len1: "denseLens s1 n"
      and lv1: "\<forall>L < n. dense_level_at kT s1 L"
    by auto
  note f = eraseDense_fields [OF fr]
  have "sparseInv s1 = sparseInv s"
    by (rule sparseInv_cong) (simp_all add: f)
  with inv Suc.prems len1 have ready: "denseReady s1 n"
    by (simp add: denseReady_def f)
  from buildDense_level_denseSt [OF ready, of kT]
  obtain BL BC PK where lvl: "buildDense_level kT n s1 = Inr (denseSt s1 BL BC PK)"
    and spec: "dense_level_of kT (labels s1 ! n) (child_indicator_bits s1 ! n)
          (louds_bits s1 ! n) BL BC PK"
    by blast
  let ?s' = "denseSt s1 BL BC PK"
  note g = eraseDense_fields [OF denseSt_fields(1) [of s1 BL BC PK]]
  have "fold (\<lambda>level r. bindE r (buildDense_level kT level)) [0..<Suc n] (Inr s) = Inr ?s'"
    using s1 lvl by simp
  moreover have "eraseDense ?s' = eraseDense s"
    using fr by (simp add: denseSt_fields)
  moreover have "denseLens ?s' (Suc n)"
    using len1 by (simp add: denseLens_def denseSt_fields)
  moreover have "dense_level_at kT ?s' L" if "L < Suc n" for L
  proof (cases "L = n")
    case True
    with spec len1 show ?thesis
      by (simp add: dense_level_at_def g denseSt_fields denseLens_def snoc_nth_last)
  next
    case False
    with that have "L < n" by simp
    with lv1 len1 show ?thesis
      by (simp add: dense_level_at_def g denseSt_fields denseLens_def nth_append)
  qed
  ultimately show ?case by blast
qed

text \<open>\<^verbatim>\<open>build\<close> on a fresh builder either succeeds or stops at one of two assertions: the
  one on the empty key list, or the one on the start level in
  \<^verbatim>\<open>insertKeyBytesToTrieUntilUnique\<close>.\<close>

lemma build_total:
  "(\<exists>s. build kT keys (FSTBuilder incl ratio) = Inr s
        \<and> (incl \<longrightarrow> (\<forall>L < sparse_start_level s. dense_level_at kT s L)))
   \<or> build kT keys (FSTBuilder incl ratio) = Inl EmptyKeyList
   \<or> build kT keys (FSTBuilder incl ratio) = Inl StartLevelPastKey"
proof (cases "keys = []")
  case True
  then show ?thesis by (simp add: build_def)
next
  case False
  from buildSparse_wf [of keys incl ratio] show ?thesis
  proof
    assume "buildSparse keys (FSTBuilder incl ratio) = Inl StartLevelPastKey"
    with False show ?thesis by (simp add: build_def)
  next
    assume "\<exists>s'. buildSparse keys (FSTBuilder incl ratio) = Inr s' \<and> wf_sparse s'"
    then obtain s1 where s1: "buildSparse keys (FSTBuilder incl ratio) = Inr s1"
      and wf: "wf_sparse s1"
      by blast
    note e = eraseSparse_fields [OF buildSparse_frame [OF s1]]
    from e(1) have incl1: "include_dense s1 = incl" by (simp add: FSTBuilder_def)
    show ?thesis
    proof (cases incl)
      case False
      with s1 incl1 \<open>keys \<noteq> []\<close> show ?thesis by (simp add: build_def)
    next
      case True
      from determineCutoffLevel_spec [OF wf] obtain c s2
        where s2: "determineCutoffLevel s1 = Inr s2"
          and s2_def: "s2 = s1\<lparr> sparse_start_level := c,
                 positions_dense := positions_dense s1 @ concat (take c (positions s1)),
                 positions_sparse := positions_sparse s1 @ concat (drop c (positions s1)),
                 positions := [] \<rparr>"
          and c: "c \<le> getTreeHeight s1"
        by blast
      have "sparseInv s2 = sparseInv s1"
        by (rule sparseInv_cong) (simp_all add: s2_def)
      with wf have inv2: "sparseInv s2" by (simp add: wf_sparse_def)
      from c have c2: "sparse_start_level s2 \<le> length (labels s2)"
        by (simp add: s2_def getTreeHeight_def)
      from e(6,7,8) have "denseLens s2 0"
        by (simp add: denseLens_def s2_def FSTBuilder_def)
      from buildDense_fold_denseSt [OF inv2 c2 this, of kT]
      obtain s' where s': "buildDense kT s2 = Inr s'"
        and fr: "eraseDense s' = eraseDense s2"
        and lv: "\<forall>L < sparse_start_level s2. dense_level_at kT s' L"
        by (auto simp: buildDense_def)
      from eraseDense_fields(5) [OF fr] lv
      have "\<forall>L < sparse_start_level s'. dense_level_at kT s' L" by simp
      moreover have "build kT keys (FSTBuilder incl ratio) = Inr s'"
        using \<open>keys \<noteq> []\<close> s1 incl1 True s2 s' by (simp add: build_def)
      ultimately show ?thesis by blast
    qed
  qed
qed

section \<open>Renaming the recorded positions\<close>

text \<open>The builder stores input ranks and never reads them back, so its run commutes with
  any renaming of the ranks.\<close>

definition rename_positions :: "(nat \<Rightarrow> nat) \<Rightarrow> builder \<Rightarrow> builder" where
  "rename_positions f s =
     s\<lparr> positions := map (map f) (positions s),
        positions_dense := map f (positions_dense s),
        positions_sparse := map f (positions_sparse s) \<rparr>"

definition renameE :: "(nat \<Rightarrow> nat) \<Rightarrow> error + builder \<Rightarrow> error + builder" where
  "renameE f r = map_sum id (rename_positions f) r"

definition renameP :: "(nat \<Rightarrow> nat) \<Rightarrow> error + (nat \<times> builder) \<Rightarrow> error + (nat \<times> builder)" where
  "renameP f r = map_sum id (map_prod id (rename_positions f)) r"

lemma renameE_simps [simp]:
  "renameE f (Inl e) = Inl e" "renameE f (Inr s) = Inr (rename_positions f s)"
  by (simp_all add: renameE_def)

lemma renameP_simps [simp]:
  "renameP f (Inl e) = Inl e" "renameP f (Inr (l, s)) = Inr (l, rename_positions f s)"
  by (simp_all add: renameP_def)

lemma renameE_bindE: "renameE f (bindE m h) = bindE m (\<lambda>x. renameE f (h x))"
  by (cases m) simp_all

lemma renameP_bindE: "renameP f (bindE m h) = bindE m (\<lambda>x. renameP f (h x))"
  by (cases m) simp_all

lemma bindE_renameE: "bindE (renameE f m) h = bindE m (\<lambda>s. h (rename_positions f s))"
  by (cases m) simp_all

lemma bindE_renameP:
  "bindE (renameP f m) h = bindE m (\<lambda>(l, s). h (l, rename_positions f s))"
  by (cases m) auto

lemma bindE_assoc: "bindE (bindE m g) k = bindE m (\<lambda>x. bindE (g x) k)"
  by (cases m) simp_all

lemma bindE_if: "bindE (if b then x else y) k = (if b then bindE x k else bindE y k)"
  by simp

lemma renameE_if: "renameE f (if b then x else y) = (if b then renameE f x else renameE f y)"
  by simp

lemma renameP_if: "renameP f (if b then x else y) = (if b then renameP f x else renameP f y)"
  by simp

lemma rename_positions_fields [simp]:
  "labels (rename_positions f s) = labels s"
  "child_indicator_bits (rename_positions f s) = child_indicator_bits s"
  "louds_bits (rename_positions f s) = louds_bits s"
  "node_counts (rename_positions f s) = node_counts s"
  "is_last_item_terminator (rename_positions f s) = is_last_item_terminator s"
  "include_dense (rename_positions f s) = include_dense s"
  "sparse_dense_ratio (rename_positions f s) = sparse_dense_ratio s"
  "sparse_start_level (rename_positions f s) = sparse_start_level s"
  "bitmap_labels (rename_positions f s) = bitmap_labels s"
  "bitmap_child_indicator_bits (rename_positions f s) = bitmap_child_indicator_bits s"
  "prefixkey_indicator_bits (rename_positions f s) = prefixkey_indicator_bits s"
  "positions (rename_positions f s) = map (map f) (positions s)"
  "positions_dense (rename_positions f s) = map f (positions_dense s)"
  "positions_sparse (rename_positions f s) = map f (positions_sparse s)"
  by (simp_all add: rename_positions_def)

lemma rename_positions_update [simp]:
  "rename_positions f (s\<lparr>labels := a\<rparr>) = (rename_positions f s)\<lparr>labels := a\<rparr>"
  "rename_positions f (s\<lparr>child_indicator_bits := b\<rparr>)
     = (rename_positions f s)\<lparr>child_indicator_bits := b\<rparr>"
  "rename_positions f (s\<lparr>louds_bits := c\<rparr>) = (rename_positions f s)\<lparr>louds_bits := c\<rparr>"
  "rename_positions f (s\<lparr>node_counts := d\<rparr>) = (rename_positions f s)\<lparr>node_counts := d\<rparr>"
  "rename_positions f (s\<lparr>is_last_item_terminator := e\<rparr>)
     = (rename_positions f s)\<lparr>is_last_item_terminator := e\<rparr>"
  "rename_positions f (s\<lparr>bitmap_labels := g\<rparr>) = (rename_positions f s)\<lparr>bitmap_labels := g\<rparr>"
  "rename_positions f (s\<lparr>bitmap_child_indicator_bits := h\<rparr>)
     = (rename_positions f s)\<lparr>bitmap_child_indicator_bits := h\<rparr>"
  "rename_positions f (s\<lparr>prefixkey_indicator_bits := i\<rparr>)
     = (rename_positions f s)\<lparr>prefixkey_indicator_bits := i\<rparr>"
  "rename_positions f (s\<lparr>sparse_start_level := j\<rparr>)
     = (rename_positions f s)\<lparr>sparse_start_level := j\<rparr>"
  by (simp_all add: rename_positions_def)

lemma getTreeHeight_rename [simp]: "getTreeHeight (rename_positions f s) = getTreeHeight s"
  by (simp add: getTreeHeight_def)

lemma getNumItems_rename [simp]: "getNumItems (rename_positions f s) level = getNumItems s level"
  by (simp add: getNumItems_def)

lemma isLevelEmpty_rename [simp]: "isLevelEmpty level (rename_positions f s) = isLevelEmpty level s"
  by (simp add: isLevelEmpty_def)

lemma isCharCommonPrefix_rename [simp]:
  "isCharCommonPrefix c level (rename_positions f s) = isCharCommonPrefix c level s"
  by (simp add: isCharCommonPrefix_def cong: if_cong)

lemma addLevel_rename:
  "addLevel (rename_positions f s) = renameE f (addLevel s)"
  by (simp add: addLevel_def Let_def renameE_bindE getTreeHeight_def rename_positions_def
      modifyE_def cong: if_cong)

lemma setChildIndicatorOfLastItem_rename:
  "setChildIndicatorOfLastItem level (rename_positions f s)
     = renameE f (setChildIndicatorOfLastItem level s)"
  by (simp add: setChildIndicatorOfLastItem_def renameE_bindE cong: if_cong)

lemma moveToNextItemSlot_rename:
  "moveToNextItemSlot level (rename_positions f s) = renameE f (moveToNextItemSlot level s)"
  by (simp add: moveToNextItemSlot_def renameE_bindE renameE_if cong: if_cong)

lemma insertKeyByte_rename:
  "insertKeyByte c level st tm (rename_positions f s) = renameE f (insertKeyByte c level st tm s)"
  unfolding insertKeyByte_def Let_def
  by (simp add: bindE_assoc bindE_if renameE_bindE renameE_if bindE_renameE
      addLevel_rename setChildIndicatorOfLastItem_rename moveToNextItemSlot_rename [symmetric]
      getNumItems_def cong: if_cong)


lemma skipCommonPrefix_loop_rename:
  "skipCommonPrefix_loop key level (rename_positions f s)
     = renameP f (skipCommonPrefix_loop key level s)"
proof (induction key level s rule: skipCommonPrefix_loop.induct)
  case (1 key level s)
  show ?case
  proof (cases "level < length key")
    case False
    then show ?thesis
      by (simp add: skipCommonPrefix_loop.simps [of key level])
  next
    case True
    show ?thesis
    proof (cases "isCharCommonPrefix (key ! level) level s")
      case (Inl e)
      with True show ?thesis
        by (simp add: skipCommonPrefix_loop.simps [of key level])
    next
      case (Inr common)
      show ?thesis
      proof (cases common)
        case False
        with True Inr show ?thesis
          by (simp add: skipCommonPrefix_loop.simps [of key level])
      next
        case common: True
        show ?thesis
        proof (cases "setChildIndicatorOfLastItem level s")
          case (Inl e)
          with True Inr common show ?thesis
            by (simp add: skipCommonPrefix_loop.simps [of key level]
                setChildIndicatorOfLastItem_rename)
        next
          case s1: (Inr s1)
          from "1.IH" [OF True _ _ s1] Inr common
          have "skipCommonPrefix_loop key (level + 1) (rename_positions f s1)
              = renameP f (skipCommonPrefix_loop key (level + 1) s1)"
            by simp
          with True Inr common s1 show ?thesis
            by (simp add: skipCommonPrefix_loop.simps [of key level]
                setChildIndicatorOfLastItem_rename)
        qed
      qed
    qed
  qed
qed

lemma insertKeyBytes_loop_rename:
  "insertKeyBytes_loop key next_key level (rename_positions f s)
     = renameP f (insertKeyBytes_loop key next_key level s)"
proof (induction key next_key level s rule: insertKeyBytes_loop.induct)
  case (1 key next_key level s)
  show ?case
  proof (cases "level < length key \<and> level < length next_key
         \<and> key ! (level - 1) = next_key ! (level - 1)")
    case False
    then show ?thesis
      by (subst (1 2) insertKeyBytes_loop.simps) auto
  next
    case True
    show ?thesis
    proof (cases "insertKeyByte (key ! level) level True False s")
      case (Inl e)
      with True show ?thesis
        by (subst (1 2) insertKeyBytes_loop.simps) (simp add: insertKeyByte_rename)
    next
      case (Inr s1)
      from "1.IH" [OF True Inr] True Inr show ?thesis
        by (subst (1 2) insertKeyBytes_loop.simps) (simp add: insertKeyByte_rename)
    qed
  qed
qed

lemma emplacePosition_rename:
  "emplacePosition level (f r) (rename_positions f s) = renameE f (emplacePosition level r s)"
  by (simp add: emplacePosition_def modifyE_def rename_positions_def map_update)

lemma insertKeyBytesToTrieUntilUnique_rename:
  "insertKeyBytesToTrieUntilUnique key (f r) next_key start_level (rename_positions f s)
     = renameP f (insertKeyBytesToTrieUntilUnique key r next_key start_level s)"
proof -
  have loop: "bindE (insertKeyBytes_loop key next_key lv (rename_positions f s1))
        (\<lambda>(level, s2). bindE (emplacePosition (level - 1) (f r) s2) (\<lambda>s3. Inr (level, s3)))
      = renameP f (bindE (insertKeyBytes_loop key next_key lv s1)
        (\<lambda>(level, s2). bindE (emplacePosition (level - 1) r s2) (\<lambda>s3. Inr (level, s3))))"
    for lv s1
    by (cases "insertKeyBytes_loop key next_key lv s1")
      (auto simp: insertKeyBytes_loop_rename emplacePosition_rename renameP_bindE bindE_renameE)
  have stop: "bindE (emplacePosition lv (f r) (rename_positions f s1)) (\<lambda>s2. Inr (lv', s2))
      = renameP f (bindE (emplacePosition lv r s1) (\<lambda>s2. Inr (lv', s2)))" for lv lv' s1
    by (simp add: emplacePosition_rename renameP_bindE bindE_renameE)
  show ?thesis
    unfolding insertKeyBytesToTrieUntilUnique_def Let_def
    by (cases "insertKeyByte (key ! start_level) start_level (isLevelEmpty start_level s) False s")
      (simp_all add: insertKeyByte_rename loop [unfolded One_nat_def] stop)
qed

section \<open>Adjacent duplicates\<close>

text \<open>The distinct keys of a list in order, each with the input rank of its first
  occurrence: \<open>key_runs_from prev i ks\<close> numbers the keys \<open>ks\<close> from \<open>i\<close> and drops those
  equal to their predecessor, starting with \<open>prev\<close>.\<close>

fun key_runs_from :: "string \<Rightarrow> nat \<Rightarrow> string list \<Rightarrow> (nat \<times> string) list" where
  "key_runs_from prev i [] = []"
| "key_runs_from prev i (k # ks) =
     (if k = prev then key_runs_from prev (i + 1) ks else (i, k) # key_runs_from k (i + 1) ks)"

fun key_runs :: "nat \<Rightarrow> string list \<Rightarrow> (nat \<times> string) list" where
  "key_runs i [] = []"
| "key_runs i (k # ks) = (i, k) # key_runs_from k (i + 1) ks"

definition first_ranks :: "string list \<Rightarrow> nat list" where
  "first_ranks keys = map fst (key_runs 0 keys)"

text \<open>The sparse pass over a list of keys with their ranks: for every key the common
  prefix is skipped and the rest inserted, up to the first byte that tells it from the next
  key of the list.\<close>

fun sparse_steps :: "(nat \<times> string) list \<Rightarrow> builder \<Rightarrow> error + builder" where
  "sparse_steps [] s = Inr s"
| "sparse_steps ((r, k) # rest) s =
     bindE (skipCommonPrefix k s) (\<lambda>(level, s1).
     bindE (insertKeyBytesToTrieUntilUnique k r
              (case rest of [] \<Rightarrow> [] | (_, n) # _ \<Rightarrow> n) level s1) (\<lambda>(_, s2).
     sparse_steps rest s2))"

lemma skipSameKeys_conv:
  "skipSameKeys keys c j = j + length (takeWhile (\<lambda>x. x = keys ! c) (drop (j + 1) keys))"
proof (induction keys c j rule: skipSameKeys.induct)
  case (1 keys c j)
  show ?case
  proof (cases "j + 1 < length keys")
    case False
    then show ?thesis by (subst skipSameKeys.simps) simp
  next
    case True
    then have d: "drop (Suc j) keys = keys ! Suc j # drop (Suc (Suc j)) keys"
      by (simp add: Cons_nth_drop_Suc)
    show ?thesis
    proof (cases "keys ! c = keys ! (j + 1)")
      case False
      with True d show ?thesis
        by (subst skipSameKeys.simps) (auto simp: isSameKey_def)
    next
      case same: True
      with True have "skipSameKeys keys c j = skipSameKeys keys c (j + 1)"
        by (subst skipSameKeys.simps) (simp add: isSameKey_def)
      also from "1.IH" True same
      have "\<dots> = j + 1 + length (takeWhile (\<lambda>x. x = keys ! c) (drop (j + 1 + 1) keys))"
        by (simp add: isSameKey_def)
      finally show ?thesis using same d by simp
    qed
  qed
qed

lemma key_runs_from_dropWhile:
  "key_runs_from k i ks
     = key_runs (i + length (takeWhile (\<lambda>x. x = k) ks)) (dropWhile (\<lambda>x. x = k) ks)"
  by (induction ks arbitrary: i) simp_all

lemma next_of_key_runs:
  "(case key_runs i ks of [] \<Rightarrow> [] | (_, n) # _ \<Rightarrow> n) = (case ks of [] \<Rightarrow> [] | n # _ \<Rightarrow> n)"
  by (cases ks) simp_all

lemma buildSparse_loop_steps:
  "buildSparse_loop keys i s = sparse_steps (key_runs i (drop i keys)) s"
proof (induction "length keys - i" arbitrary: i s rule: less_induct)
  case less
  show ?case
  proof (cases "i < length keys")
    case False
    then show ?thesis by (subst buildSparse_loop.simps) simp
  next
    case True
    define k where "k = keys ! i"
    define ks where "ks = drop (i + 1) keys"
    define d where "d = length (takeWhile (\<lambda>x. x = k) ks)"
    define j where "j = skipSameKeys keys i i"
    have j: "j = i + d"
      by (simp add: j_def d_def ks_def k_def skipSameKeys_conv)
    from True have di: "drop i keys = k # ks"
      by (simp add: k_def ks_def Cons_nth_drop_Suc)
    have "dropWhile (\<lambda>x. x = k) ks = drop d ks"
      by (simp add: d_def dropWhile_eq_drop)
    also have "\<dots> = drop (j + 1) keys" by (simp add: ks_def j add.commute)
    finally have rest: "dropWhile (\<lambda>x. x = k) ks = drop (j + 1) keys" .
    have "key_runs_from k (i + 1) ks = key_runs (i + 1 + d) (dropWhile (\<lambda>x. x = k) ks)"
      unfolding d_def by (rule key_runs_from_dropWhile)
    also have "\<dots> = key_runs (j + 1) (drop (j + 1) keys)"
      by (simp add: rest j)
    finally have runs: "key_runs i (drop i keys) = (i, k) # key_runs (j + 1) (drop (j + 1) keys)"
      by (simp add: di)
    have nxt: "(if j < length keys - 1 then keys ! (j + 1) else [])
        = (case key_runs (j + 1) (drop (j + 1) keys) of [] \<Rightarrow> [] | (_, n) # _ \<Rightarrow> n)"
    proof (cases "j + 1 < length keys")
      case True
      then have "j < length keys - 1" by simp
      with True show ?thesis
        by (simp add: next_of_key_runs Cons_nth_drop_Suc [symmetric])
    next
      case False
      then have "\<not> j < length keys - 1" by simp
      with False show ?thesis by (simp add: next_of_key_runs)
    qed
    have ins: "(if j < length keys - 1
            then insertKeyBytesToTrieUntilUnique k i (keys ! (j + 1)) level s1
            else insertKeyBytesToTrieUntilUnique k i [] level s1)
        = insertKeyBytesToTrieUntilUnique k i
            (case key_runs (j + 1) (drop (j + 1) keys) of [] \<Rightarrow> [] | (_, n) # _ \<Rightarrow> n) level s1"
      for level s1
      unfolding nxt [symmetric] by simp
    from True j have "length keys - (j + 1) < length keys - i" by simp
    note IH = less.hyps [OF this]
    have "buildSparse_loop keys i s
        = bindE (skipCommonPrefix k s) (\<lambda>(level, s1).
          bindE (if j < length keys - 1
            then insertKeyBytesToTrieUntilUnique k i (keys ! (j + 1)) level s1
            else insertKeyBytesToTrieUntilUnique k i [] level s1) (\<lambda>(_, s2).
          buildSparse_loop keys (j + 1) s2))"
      using True by (subst buildSparse_loop.simps) (simp add: Let_def k_def j_def cong: if_cong)
    also have "\<dots> = sparse_steps ((i, k) # key_runs (j + 1) (drop (j + 1) keys)) s"
      unfolding ins IH by simp
    finally show ?thesis by (simp add: runs)
  qed
qed


lemma sparse_steps_rename:
  "sparse_steps (map (\<lambda>(r, k). (f r, k)) rs) (rename_positions f s)
     = renameE f (sparse_steps rs s)"
proof (induction rs arbitrary: s)
  case Nil
  show ?case by simp
next
  case (Cons a rs)
  obtain r k where a: "a = (r, k)" by (cases a)
  have nx: "(case map (\<lambda>(r, k). (f r, k)) rs of [] \<Rightarrow> [] | (_, n) # _ \<Rightarrow> n)
      = (case rs of [] \<Rightarrow> [] | (_, n) # _ \<Rightarrow> n)"
    by (cases rs) auto
  show ?case
  proof (cases "skipCommonPrefix k s")
    case (Inl e)
    then show ?thesis
      by (simp add: a skipCommonPrefix_def skipCommonPrefix_loop_rename)
  next
    case (Inr p)
    obtain level s1 where p: "p = (level, s1)" by (cases p)
    show ?thesis
    proof (cases "insertKeyBytesToTrieUntilUnique k r
        (case rs of [] \<Rightarrow> [] | (_, n) # _ \<Rightarrow> n) level s1")
      case (Inl e)
      with Inr p show ?thesis
        by (simp add: a nx skipCommonPrefix_def skipCommonPrefix_loop_rename
            insertKeyBytesToTrieUntilUnique_rename)
    next
      case q: (Inr q)
      obtain l2 s2 where q2: "q = (l2, s2)" by (cases q)
      with Inr p q Cons.IH [of s2] show ?thesis
        by (simp add: a nx skipCommonPrefix_def skipCommonPrefix_loop_rename
            insertKeyBytesToTrieUntilUnique_rename)
    qed
  qed
qed

lemma key_runs_from_snd:
  "map snd (key_runs_from p i ks) = tl (remdups_adj (p # ks))"
  by (induction ks arbitrary: p i) simp_all

lemma key_runs_snd: "map snd (key_runs i ks) = remdups_adj ks"
proof (cases ks)
  case Nil
  then show ?thesis by simp
next
  case (Cons k ks')
  have "remdups_adj (k # ks') = k # tl (remdups_adj (k # ks'))"
    by (cases ks') simp_all
  with Cons show ?thesis by (simp add: key_runs_from_snd)
qed

lemma key_runs_from_distinct_adj:
  "distinct_adj (p # ks) \<Longrightarrow> key_runs_from p i ks = zip [i..<i + length ks] ks"
proof (induction ks arbitrary: p i)
  case Nil
  show ?case by simp
next
  case (Cons k ks)
  from Cons.prems have kp: "k \<noteq> p" and da: "distinct_adj (k # ks)" by auto
  have "[i..<Suc (i + length ks)] = i # [Suc i..<Suc (i + length ks)]"
    by (rule upt_conv_Cons) simp
  with Cons.IH [OF da, of "i + 1"] kp show ?case by simp
qed

lemma key_runs_distinct_adj:
  "distinct_adj ks \<Longrightarrow> key_runs i ks = zip [i..<i + length ks] ks"
proof (cases ks)
  case Nil
  then show ?thesis by simp
next
  case (Cons k ks')
  assume "distinct_adj ks"
  with Cons have da: "distinct_adj (k # ks')" by simp
  have "[i..<Suc (i + length ks')] = i # [Suc i..<Suc (i + length ks')]"
    by (rule upt_conv_Cons) simp
  with key_runs_from_distinct_adj [OF da, of "i + 1"] Cons show ?thesis by simp
qed

lemma key_runs_remdups_adj:
  "key_runs 0 keys
     = map (\<lambda>(j, k). (first_ranks keys ! j, k)) (key_runs 0 (remdups_adj keys))"
proof -
  let ?rs = "key_runs 0 keys"
  have len: "length (remdups_adj keys) = length ?rs"
    using key_runs_snd [of 0 keys, symmetric] by simp
  have "key_runs 0 (remdups_adj keys) = zip [0..<length ?rs] (map snd ?rs)"
    by (simp add: key_runs_distinct_adj len key_runs_snd)
  then have "map (\<lambda>(j, k). (first_ranks keys ! j, k)) (key_runs 0 (remdups_adj keys))
      = map (\<lambda>(j, k). (map fst ?rs ! j, k)) (zip [0..<length ?rs] (map snd ?rs))"
    by (simp add: first_ranks_def)
  also have "\<dots> = ?rs"
    by (rule nth_equalityI) (simp_all add: prod_eq_iff)
  finally show ?thesis by simp
qed

lemma buildSparse_remdups_adj:
  "buildSparse keys (rename_positions (\<lambda>j. first_ranks keys ! j) s)
     = renameE (\<lambda>j. first_ranks keys ! j) (buildSparse (remdups_adj keys) s)"
proof -
  let ?f = "\<lambda>j. first_ranks keys ! j"
  have "buildSparse keys (rename_positions ?f s)
      = sparse_steps (key_runs 0 keys) (rename_positions ?f s)"
    by (simp add: buildSparse_def buildSparse_loop_steps)
  also have "\<dots> = sparse_steps (map (\<lambda>(r, k). (?f r, k)) (key_runs 0 (remdups_adj keys)))
      (rename_positions ?f s)"
    by (subst key_runs_remdups_adj) simp
  also have "\<dots> = renameE ?f (sparse_steps (key_runs 0 (remdups_adj keys)) s)"
    by (rule sparse_steps_rename)
  finally show ?thesis
    by (simp add: buildSparse_def buildSparse_loop_steps)
qed

text \<open>The cut-off and the dense pass read no position either.\<close>

lemma computeDenseMem_rename [simp]:
  "computeDenseMem L (rename_positions f s) = computeDenseMem L s"
  by (simp add: computeDenseMem_def cong: if_cong)

lemma computeSparseMem_rename [simp]:
  "computeSparseMem L (rename_positions f s) = computeSparseMem L s"
  by (simp add: computeSparseMem_def)

lemma cutoff_loop_rename [simp]:
  "cutoff_loop L (rename_positions f s) = cutoff_loop L s"
proof (induction "getTreeHeight s - L" arbitrary: L rule: less_induct)
  case less
  show ?case
  proof (cases "computeDenseMem L s")
    case (Inl e)
    then show ?thesis by (subst (1 2) cutoff_loop.simps) simp
  next
    case (Inr dm)
    show ?thesis
    proof (cases "L < getTreeHeight s
        \<and> dm * ucast (sparse_dense_ratio s) < computeSparseMem L s")
      case False
      with Inr show ?thesis by (subst (1 2) cutoff_loop.simps) (auto simp: Let_def)
    next
      case True
      then have "getTreeHeight s - (L + 1) < getTreeHeight s - L" by arith
      from less.hyps [OF this] True Inr show ?thesis
        by (subst (1 2) cutoff_loop.simps) (simp add: Let_def)
    qed
  qed
qed

lemma determineCutoffLevel_rename:
  "determineCutoffLevel (rename_positions f s) = renameE f (determineCutoffLevel s)"
proof (cases "cutoff_loop 0 s")
  case (Inl e)
  then show ?thesis by (simp add: determineCutoffLevel_def)
next
  case (Inr c)
  have "determineCutoffLevel (rename_positions f s)
      = (let s1 = (rename_positions f s)\<lparr> sparse_start_level := c \<rparr> in
       if \<not> sparse_start_level s1 \<le> length (positions s1) then Inl IndexOutOfRange
       else
         Inr (s1\<lparr> positions_dense :=
                     positions_dense s1 @ concat (take (sparse_start_level s1) (positions s1)),
                   positions_sparse :=
                     positions_sparse s1 @ concat (drop (sparse_start_level s1) (positions s1)),
                   positions := [] \<rparr>))"
    unfolding determineCutoffLevel_def cutoff_loop_rename Inr by simp
  also have "\<dots> = renameE f (determineCutoffLevel s)"
    unfolding determineCutoffLevel_def Inr
    by (simp add: Let_def rename_positions_def map_concat take_map drop_map)
  finally show ?thesis .
qed

lemma isStartOfNode_rename [simp]:
  "isStartOfNode level pos (rename_positions f s) = isStartOfNode level pos s"
  by (simp add: isStartOfNode_def)

lemma isTerminator_rename [simp]:
  "isTerminator kT level pos (rename_positions f s) = isTerminator kT level pos s"
  by (simp add: isTerminator_def cong: if_cong)

lemma initDenseVectors_node_rename:
  "initDenseVectors_node level nc (rename_positions f s)
     = renameE f (initDenseVectors_node level nc s)"
  by (simp add: initDenseVectors_node_def renameE_bindE cong: if_cong)

lemma initDenseVectors_fold_rename:
  "fold (\<lambda>nc r. bindE r (initDenseVectors_node level nc)) [0..<n] (Inr (rename_positions f s))
     = renameE f (fold (\<lambda>nc r. bindE r (initDenseVectors_node level nc)) [0..<n] (Inr s))"
  by (induction n) (simp_all add: bindE_renameE renameE_bindE initDenseVectors_node_rename)

lemma initDenseVectors_rename:
  "initDenseVectors level (rename_positions f s) = renameE f (initDenseVectors level s)"
  unfolding initDenseVectors_def Let_def
  by (simp add: renameE_bindE initDenseVectors_fold_rename [symmetric])

lemma setPrefixkeyIndicator_rename:
  "setPrefixkeyIndicator level node_num (rename_positions f s)
     = renameE f (setPrefixkeyIndicator level node_num s)"
  by (simp add: setPrefixkeyIndicator_def renameE_bindE)

lemma setLabelAndChildIndicatorBitmap_rename:
  "setLabelAndChildIndicatorBitmap level node_num pos (rename_positions f s)
     = renameE f (setLabelAndChildIndicatorBitmap level node_num pos s)"
  by (simp add: setLabelAndChildIndicatorBitmap_def Let_def renameE_bindE renameE_if
      cong: if_cong)

lemma buildDense_slot_rename:
  "buildDense_slot kT level node_num pos (rename_positions f s)
     = renameP f (buildDense_slot kT level node_num pos s)"
  by (simp add: buildDense_slot_def Let_def renameP_bindE renameP_if bindE_renameE
      setPrefixkeyIndicator_rename setLabelAndChildIndicatorBitmap_rename cong: if_cong)

lemma buildDense_slots_rename:
  "buildDense_slots kT level node_num pos (rename_positions f s)
     = renameE f (buildDense_slots kT level node_num pos s)"
proof (induction kT level node_num pos s rule: buildDense_slots.induct)
  case (1 kT level node_num pos s)
  show ?case
  proof (cases "getNumItems s level")
    case (Inl e)
    then show ?thesis by (subst (1 2) buildDense_slots.simps) simp
  next
    case (Inr N)
    show ?thesis
    proof (cases "pos < N")
      case False
      with Inr show ?thesis by (subst (1 2) buildDense_slots.simps) simp
    next
      case True
      show ?thesis
      proof (cases "buildDense_slot kT level node_num pos s")
        case (Inl e)
        with Inr True show ?thesis
          by (subst (1 2) buildDense_slots.simps) (simp add: buildDense_slot_rename)
      next
        case r: (Inr p)
        obtain nn s1 where p: "p = (nn, s1)" by (cases p)
        from "1.IH" [OF Inr True r [unfolded p] refl] Inr True r p show ?thesis
          by (subst (1 2) buildDense_slots.simps) (simp add: buildDense_slot_rename)
      qed
    qed
  qed
qed

lemma buildDense_level_rename:
  "buildDense_level kT level (rename_positions f s) = renameE f (buildDense_level kT level s)"
proof (cases "initDenseVectors level s")
  case (Inl e)
  then show ?thesis by (simp add: buildDense_level_def initDenseVectors_rename)
next
  case (Inr s1)
  have tail: "bindE (if is_t then setPrefixkeyIndicator level 0 (rename_positions f s1)
             else setLabelAndChildIndicatorBitmap level 0 0 (rename_positions f s1))
        (buildDense_slots kT level 0 1)
      = renameE f (bindE (if is_t then setPrefixkeyIndicator level 0 s1
             else setLabelAndChildIndicatorBitmap level 0 0 s1)
        (buildDense_slots kT level 0 1))" for is_t
    by (cases is_t)
      (simp_all add: setPrefixkeyIndicator_rename setLabelAndChildIndicatorBitmap_rename
        bindE_renameE renameE_bindE buildDense_slots_rename)
  from Inr show ?thesis
    unfolding buildDense_level_def Let_def
    by (simp add: initDenseVectors_rename renameE_bindE renameE_if
        tail [unfolded One_nat_def renameE_bindE] cong: if_cong)
qed

lemma buildDense_fold_rename:
  "fold (\<lambda>level r. bindE r (buildDense_level kT level)) [0..<n] (Inr (rename_positions f s))
     = renameE f (fold (\<lambda>level r. bindE r (buildDense_level kT level)) [0..<n] (Inr s))"
  by (induction n) (simp_all add: bindE_renameE renameE_bindE buildDense_level_rename)

lemma buildDense_rename:
  "buildDense kT (rename_positions f s) = renameE f (buildDense kT s)"
  by (simp add: buildDense_def buildDense_fold_rename)

lemma rename_positions_FSTBuilder [simp]:
  "rename_positions f (FSTBuilder incl ratio) = FSTBuilder incl ratio"
  by (simp add: rename_positions_def FSTBuilder_def)


section \<open>Two keys that differ in their last byte\<close>
















section \<open>BitvectorSelect\<close>










section \<open>Counting set bits by position\<close>



lemma filter_upt_split:
  "a \<le> b \<Longrightarrow> length (filter P [0..<b]) = length (filter P [0..<a]) + length (filter P [a..<b])"
proof -
  assume ab: "a \<le> b"
  have "[0..<a + (b - a)] = [0..<a] @ [a..<a + (b - a)]"
    by (rule upt_add_eq_append) simp
  moreover from ab have "a + (b - a) = b" by simp
  ultimately have "[0..<b] = [0..<a] @ [a..<b]" by simp
  then show ?thesis by simp
qed


text \<open>The number of set bits before position \<open>p\<close> of a vector, the number of set bits
  before offset \<open>j\<close> of a word (offset 0 is the most significant bit), and the positions of
  the set bits of a vector in increasing order.\<close>

definition rank_before :: "word_t list \<Rightarrow> nat \<Rightarrow> nat" where
  "rank_before bs p = length (filter (testBit bs) [0..<p])"



lemma rank_before_0 [simp]: "rank_before bs 0 = 0"
  by (simp add: rank_before_def)


lemma rank_before_mono: "p \<le> q \<Longrightarrow> rank_before bs p \<le> rank_before bs q"
  unfolding rank_before_def by (simp add: filter_upt_split [of p q])











section \<open>The scan of select\<close>







section \<open>The look-up table of select\<close>








section \<open>A key that is a prefix of its successor\<close>

text \<open>
  Claim C1.  For the keys \<open>a\<close>, \<open>ab\<close> the claim expects two slots at level 1: the
  reserved terminator as a node start, then \<open>b\<close> with its LOUDS bit clear, and the
  flag \<^verbatim>\<open>is_last_item_terminator\<close> set at level 1.  The builder emits no terminator slot:
  \<^verbatim>\<open>insertKeyBytesToTrieUntilUnique\<close> passes \<^verbatim>\<open>is_term = false\<close> on every path and stops when the
  key is used up.  Level 1 holds the single slot \<open>b\<close>, which is a node start, and no
  flag is set.
\<close>

theorem C1_prefix_key_emits_no_terminator:
  "buildSparse [''a'', ''ab''] (FSTBuilder False 0) =
     Inr ((FSTBuilder False 0)
       \<lparr> positions := [[0], [1]],
         labels := [''a'', ''b''],
         child_indicator_bits := [[push_bit 63 1], [0]],
         louds_bits := [[push_bit 63 1], [push_bit 63 1]],
         node_counts := [1, 1],
         is_last_item_terminator := [False, False] \<rparr>)"
  by code_simp

section \<open>A single empty key\<close>

text \<open>
  Claim C6, as stated, fails: a key list that consists of the empty key is not accepted.
  \<^verbatim>\<open>skipCommonPrefix\<close> returns level 0, and the assertion
  \<^verbatim>\<open>start_level < key.length()\<close> of \<^verbatim>\<open>insertKeyBytesToTrieUntilUnique\<close> fails.
\<close>

theorem C6_empty_key_counterexample:
  "build (CHR 0xFF) [[]] (FSTBuilder False 16) = Inl StartLevelPastKey"
  by code_simp

text \<open>
  Claim C6, amended: for every terminator byte and every configuration of the builder,
  \<^verbatim>\<open>build\<close> on the single key of length 0 stops at the assertion
  \<^verbatim>\<open>start_level < key.length()\<close>; it returns no vectors, so no slot is emitted.
\<close>

theorem C6_empty_key_rejected:
  "build kT [[]] (FSTBuilder incl ratio) = Inl StartLevelPastKey"
proof -
  have "skipCommonPrefix [] (FSTBuilder incl ratio) = Inr (0, FSTBuilder incl ratio)"
    by (simp add: skipCommonPrefix_def skipCommonPrefix_loop.simps)
  moreover have "skipSameKeys [[]] 0 0 = 0"
    by (simp add: skipSameKeys.simps)
  moreover have "insertKeyBytesToTrieUntilUnique [] 0 [] 0 (FSTBuilder incl ratio)
      = Inl StartLevelPastKey"
    by (simp add: insertKeyBytesToTrieUntilUnique_def)
  ultimately have "buildSparse [[]] (FSTBuilder incl ratio) = Inl StartLevelPastKey"
    by (simp add: buildSparse_def buildSparse_loop.simps [of _ 0])
  then show ?thesis
    by (simp add: build_def)
qed

section \<open>Positions when the dense layout is switched off\<close>

text \<open>
  Claim C2.  With \<^verbatim>\<open>include_dense = false\<close>, \<^verbatim>\<open>build\<close> never calls
  \<^verbatim>\<open>determineCutoffLevel\<close>, the only place that fills \<^verbatim>\<open>positions_sparse_\<close>.  For the key
  list \<open>a\<close> the cut-off level is 0 as claimed, but \<^verbatim>\<open>positions_sparse_\<close> stays empty; the rank
  0 is left in the private per-level vector \<^verbatim>\<open>positions_\<close>.
\<close>

theorem C2_positions_sparse_left_empty:
  "(case build (CHR 0xFF) [''a''] (FSTBuilder False 16) of
      Inl e \<Rightarrow> False
    | Inr s \<Rightarrow> sparse_start_level s = 0 \<and> labels s = [''a'']
             \<and> positions_sparse s = [] \<and> positions_dense s = []
             \<and> positions s = [[0]])"
  by code_simp

section \<open>Child indicators and node counts\<close>

text \<open>
  Claim C7.  On the sorted keys \<open>ab\<close>, \<open>ac\<close>, \<open>b\<close>, \<open>bd\<close> the build succeeds, level 0
  has two set child indicators and level 1 has one node.  The key \<open>b\<close> is a prefix of
  \<open>bd\<close> and gets no terminator slot, so the byte \<open>d\<close> is appended to the node of
  \<open>ab\<close> and \<open>ac\<close> instead of starting a node of its own.
\<close>

theorem C7_child_indicators_exceed_nodes:
  "(case build (CHR 0xFF) [''ab'', ''ac'', ''b'', ''bd''] (FSTBuilder False 16) of
      Inl e \<Rightarrow> False
    | Inr s \<Rightarrow> labels s = [''ab'', ''bcd'']
             \<and> popcountBits (child_indicator_bits s ! 0) = 2
             \<and> popcountBits (louds_bits s ! 1) = 1
             \<and> node_counts s ! 1 = 1)"
  by code_simp

section \<open>LOUDS bits and node counts\<close>

text \<open>
  Claim C8.  After every successful build, from either constructor configuration, the
  number of set bits of \<^verbatim>\<open>louds_bits_[L]\<close> equals \<^verbatim>\<open>node_counts_[L]\<close> at every level \<open>L\<close> of the
  trie.
\<close>

theorem C8_louds_popcount_is_node_count:
  assumes "build kT keys (FSTBuilder incl ratio) = Inr s" and "L < getTreeHeight s"
  shows "popcountBits (louds_bits s ! L) = node_counts s ! L"
  using build_Inr(1) [OF assms(1)] assms(2)
  by (simp add: sparseInv_def levelAt_def levelInv_def levelPre_def getTreeHeight_def)

text \<open>The claim at the keys \<open>ab\<close>, \<open>ac\<close>, \<open>b\<close> and level 1.\<close>

theorem C8_louds_popcount_witness:
  "(case build (CHR 0xFF) [''ab'', ''ac'', ''b''] (FSTBuilder True 16) of
      Inl e \<Rightarrow> False
    | Inr s \<Rightarrow> 1 < getTreeHeight s \<and> popcountBits (louds_bits s ! 1) = node_counts s ! 1)"
proof -
  have "(case build (CHR 0xFF) [''ab'', ''ac'', ''b''] (FSTBuilder True 16) of
      Inl e \<Rightarrow> False | Inr s \<Rightarrow> 1 < getTreeHeight s)"
    by code_simp
  then obtain s where b: "build (CHR 0xFF) [''ab'', ''ac'', ''b''] (FSTBuilder True 16) = Inr s"
    and h: "1 < getTreeHeight s"
    by (cases "build (CHR 0xFF) [''ab'', ''ac'', ''b''] (FSTBuilder True 16)") auto
  from C8_louds_popcount_is_node_count [OF b h] b h show ?thesis by simp
qed

section \<open>The dense conversion\<close>



section \<open>Bit positions stay in range\<close>

text \<open>
  Claim C10.  No build stops at the assertion of \<^verbatim>\<open>readBit\<close> or \<^verbatim>\<open>setBit\<close>: every position
  the builder reads or writes, in the sparse pass and in the dense pass, lies below the
  size of its vector in bits.  This holds for every key list, sorted or not, since every
  level keeps one word more than its slots fill and the dense vectors are sized from the
  node counts.
\<close>

theorem C10_bit_positions_in_range:
  "build kT keys (FSTBuilder incl ratio) \<noteq> Inl BitOutOfRange"
  using build_total [of kT keys incl ratio] by auto

section \<open>Adjacent duplicates\<close>

text \<open>
  Claim C3.  Adjacent equal keys are collapsed and the remaining key keeps the rank of its
  first occurrence: building from \<open>keys\<close> gives what building from \<open>remdups_adj keys\<close>
  gives, with every recorded position \<open>j\<close> replaced by \<open>first_ranks keys ! j\<close>, the input
  rank at which the \<open>j\<close>-th distinct run of \<open>keys\<close> starts.  All vectors other than the
  positions are the same, and so is the outcome of a build that fails.
\<close>

theorem C3_adjacent_duplicates_collapsed:
  "build kT keys (FSTBuilder incl ratio)
     = renameE (\<lambda>j. first_ranks keys ! j) (build kT (remdups_adj keys) (FSTBuilder incl ratio))"
proof -
  let ?f = "\<lambda>j. first_ranks keys ! j"
  have sp: "buildSparse keys (FSTBuilder incl ratio)
      = renameE ?f (buildSparse (remdups_adj keys) (FSTBuilder incl ratio))"
    using buildSparse_remdups_adj [of keys "FSTBuilder incl ratio"] by simp
  show ?thesis
  proof (cases "buildSparse (remdups_adj keys) (FSTBuilder incl ratio)")
    case (Inl e)
    with sp show ?thesis by (simp add: build_def)
  next
    case (Inr s1)
    show ?thesis
    proof (cases "determineCutoffLevel s1")
      case (Inl e)
      with sp Inr show ?thesis
        by (simp add: build_def determineCutoffLevel_rename)
    next
      case c: (Inr s2)
      with sp Inr show ?thesis
        by (simp add: build_def determineCutoffLevel_rename buildDense_rename)
    qed
  qed
qed

text \<open>The keys \<^verbatim>\<open>["a", "a", "b"]\<close>, with the dense levels enabled and ratio 16: the build
  is that of \<^verbatim>\<open>["a", "b"]\<close> but for the positions, which are 0 and 2 instead of 0 and 1.\<close>

theorem C3_adjacent_duplicates_witness:
  "(case build (CHR 0xFF) [''a'', ''b''] (FSTBuilder True 16) of
      Inl e \<Rightarrow> False
    | Inr t \<Rightarrow> positions_dense t = [0, 1] \<and> positions_sparse t = []
        \<and> build (CHR 0xFF) [''a'', ''a'', ''b''] (FSTBuilder True 16)
            = Inr (t\<lparr> positions_dense := [0, 2] \<rparr>))"
proof -
  let ?ks = "[''a'', ''a'', ''b'']"
  have fr: "first_ranks ?ks = [0, 2]" by code_simp
  have rd: "remdups_adj ?ks = [''a'', ''b'']" by simp
  have t: "(case build (CHR 0xFF) [''a'', ''b''] (FSTBuilder True 16) of
      Inl e \<Rightarrow> False
    | Inr t \<Rightarrow> positions_dense t = [0, 1] \<and> positions_sparse t = [] \<and> positions t = [])"
    by code_simp
  from C3_adjacent_duplicates_collapsed [of "CHR 0xFF" ?ks True 16]
  have "build (CHR 0xFF) ?ks (FSTBuilder True 16)
      = renameE (\<lambda>j. [0, 2] ! j) (build (CHR 0xFF) [''a'', ''b''] (FSTBuilder True 16))"
    by (simp only: fr rd)
  with t show ?thesis
    by (cases "build (CHR 0xFF) [''a'', ''b''] (FSTBuilder True 16)")
      (simp_all add: rename_positions_def)
qed

section \<open>The cut-off level\<close>




section \<open>select\<close>



end
